theory Spec2Isabelle
  imports Complex_Main "HOL-Library.AList"
begin

section \<open>Trust-IoT: the allocation-and-trust engine of \<^verbatim>\<open>trustiot/core.py\<close>\<close>

text \<open>
  The engine computes with Python floats. They are modelled as \<^typ>\<open>real\<close>: every
  statement below is about the exact arithmetic of the formulas in the source, not about
  IEEE rounding. The two special floats the source can produce are kept apart from the
  reals: \<^verbatim>\<open>float('inf')\<close> and numpy's \<^verbatim>\<open>nan\<close> are the value \<open>None\<close> of a
  \<^typ>\<open>real option\<close> at the places where the source can produce them.
  Python integers are \<^typ>\<open>int\<close>. Exceptions are values of \<open>py_error\<close>.
\<close>

datatype py_error = IndexError | ZeroDivisionError | StopIteration | ValueError

subsection \<open>Entity model\<close>

text \<open>
  \<^verbatim>\<open>SensorTask\<close> and \<^verbatim>\<open>IoTEdgeModule\<close> have the same fields and the same two methods,
  line for line (\<^verbatim>\<open>source_mote_id\<close> and \<^verbatim>\<open>ram_request\<close> are stored and never read by
  the engine), so one record models both. The field \<^verbatim>\<open>id\<close> is \<open>dev_id\<close>.
\<close>

record device =
  dev_id :: string
  cpu_request :: real
  weight_latency :: real
  weight_energy :: real
  deadline :: real
  is_malicious :: bool
  trust_score :: real
  consecutive_rejections :: int

text \<open>
  The constructors. The deadline is drawn by \<^verbatim>\<open>random.uniform\<close>; the drawn value is
  an argument.
\<close>

definition SensorTask :: "string \<Rightarrow> real \<Rightarrow> bool \<Rightarrow> real \<Rightarrow> device" where
  "SensorTask task_id voltage_reading malicious drawn_deadline =
     \<lparr>dev_id = task_id, cpu_request = voltage_reading,
      weight_latency = 0.8, weight_energy = 0.2,
      deadline = drawn_deadline, is_malicious = malicious,
      trust_score = (if malicious then 0.1 else 1.0),
      consecutive_rejections = 0\<rparr>"

definition IoTEdgeModule :: "string \<Rightarrow> real \<Rightarrow> bool \<Rightarrow> real \<Rightarrow> device" where
  "IoTEdgeModule module_id cpu malicious drawn_deadline =
     \<lparr>dev_id = module_id, cpu_request = cpu,
      weight_latency = 0.8, weight_energy = 0.2,
      deadline = drawn_deadline, is_malicious = malicious,
      trust_score = (if malicious then 0.1 else 1.0),
      consecutive_rejections = 0\<rparr>"

text \<open>\<^verbatim>\<open>SensorTask.calculate_utility\<close> / \<^verbatim>\<open>IoTEdgeModule.calculate_utility\<close>.\<close>

definition device_calculate_utility :: "device \<Rightarrow> real \<Rightarrow> real \<Rightarrow> real" where
  "device_calculate_utility d latency energy =
     - (weight_latency d * latency + weight_energy d * energy)"

text \<open>\<^verbatim>\<open>update_trust_score(self, is_assigned)\<close>, identical in both classes.\<close>

definition update_trust_score :: "device \<Rightarrow> bool \<Rightarrow> device" where
  "update_trust_score d is_assigned =
     (if is_assigned then
        (if is_malicious d then
           (let c = consecutive_rejections d + 1;
                penalty_factor = 0.90 - 0.05 * real_of_int c
            in d\<lparr>consecutive_rejections := c,
                 trust_score := max 0.1 (trust_score d * penalty_factor)\<rparr>)
         else
           d\<lparr>trust_score := min 1.0 (trust_score d * 1.05),
             consecutive_rejections := 0\<rparr>)
      else d\<lparr>trust_score := trust_score d * 0.995\<rparr>)"

text \<open>
  \<^verbatim>\<open>Mote\<close> and \<^verbatim>\<open>AzureIoTEdgeDevice\<close> are likewise one record: \<open>hosted\<close> is
  \<^verbatim>\<open>hosted_tasks\<close> or \<^verbatim>\<open>hosted_modules\<close> (the \<^verbatim>\<open>isinstance\<close> tests of the engine only
  select the attribute name; \<^verbatim>\<open>capacity_ram\<close> is never read). The hosted list holds
  references to the work-item objects of the simulation; a reference is the position of
  the object in \<^verbatim>\<open>Simulation.devices\<close>.
\<close>

record server =
  srv_id :: string
  capacity_cpu :: real
  hosted :: "nat list"
  load_balancing_weight :: real

definition Mote :: "string \<Rightarrow> real \<Rightarrow> server" where
  "Mote mote_id cap =
     \<lparr>srv_id = mote_id, capacity_cpu = (if cap > 0 then cap else 0.5),
      hosted = [], load_balancing_weight = 1.5\<rparr>"

definition AzureIoTEdgeDevice :: "string \<Rightarrow> real \<Rightarrow> server" where
  "AzureIoTEdgeDevice server_id cap =
     \<lparr>srv_id = server_id, capacity_cpu = (if cap > 0 then cap else 0.5),
      hosted = [], load_balancing_weight = 1.5\<rparr>"

text \<open>
  \<^verbatim>\<open>get_current_cpu_load\<close>: 0 when the capacity is 0 or nothing is hosted. The first
  argument is the list of work items the references point into.
\<close>

definition get_current_cpu_load :: "device list \<Rightarrow> server \<Rightarrow> real" where
  "get_current_cpu_load ds s =
     (if capacity_cpu s = 0 \<or> hosted s = [] then 0
      else sum_list (map (\<lambda>j. cpu_request (ds ! j)) (hosted s)) / capacity_cpu s)"

text \<open>
  \<^verbatim>\<open>Mote.calculate_utility(tasks_to_host)\<close>: Python's float division raises
  \<^verbatim>\<open>ZeroDivisionError\<close> on a zero capacity; the length of a non-empty list is not 0.
\<close>

definition server_calculate_utility :: "server \<Rightarrow> device list \<Rightarrow> py_error + real" where
  "server_calculate_utility s tasks_to_host =
     (if tasks_to_host = [] then Inr 0
      else if capacity_cpu s = 0 then Inl ZeroDivisionError
      else
        (let potential_load = sum_list (map cpu_request tasks_to_host) / capacity_cpu s;
             avg_trust = sum_list (map trust_score tasks_to_host) / real (length tasks_to_host);
             load_penalty = load_balancing_weight s * potential_load ^ 2
         in Inr (avg_trust - load_penalty)))"

subsection \<open>Cost model\<close>

record cost_entry =
  latency :: real
  energy :: real

text \<open>
  \<^verbatim>\<open>Simulation.__init__\<close> stores the two populations and draws one cost entry for every
  pair of a work-item id and a host id. The dictionary of dictionaries is a function of the
  two ids: \<^verbatim>\<open>run\<close> only looks up ids of the stored populations, for which the entry
  exists. The drawn values are arbitrary.
\<close>

record simulation =
  devices :: "device list"
  servers :: "server list"
  cost_matrix :: "string \<Rightarrow> string \<Rightarrow> cost_entry"

text \<open>
  \<^verbatim>\<open>_get_dynamic_cost\<close> returns (latency, energy, processing_time); the processing time
  is \<^verbatim>\<open>float('inf')\<close>, here \<open>None\<close>, when the capacity is not positive.
\<close>

definition get_dynamic_cost :: "simulation \<Rightarrow> device \<Rightarrow> server \<Rightarrow> real \<times> real \<times> real option" where
  "get_dynamic_cost sim d s =
     (let base_cost = cost_matrix sim (dev_id d) (srv_id s);
          load_factor = 1 + get_current_cpu_load (devices sim) s;
          processing_time =
            (if capacity_cpu s > 0 then Some (cpu_request d / capacity_cpu s) else None);
          lat = latency base_cost * load_factor
      in (lat, energy base_cost, processing_time))"

subsection \<open>Allocation engine\<close>

text \<open>
  The argmax loop shared by the proposal phase and the greedy branch:
  \<^verbatim>\<open>best_server_id, max_utility = None, -float('inf')\<close>, then for every host
  \<^verbatim>\<open>if utility > max_utility: max_utility, best_server_id = utility, server.id\<close>.
  \<open>None\<close> as \<open>max_utility\<close> is minus infinity: every real exceeds it.
\<close>

definition exceeds :: "real \<Rightarrow> real option \<Rightarrow> bool" where
  "exceeds utility max_utility =
     (case max_utility of None \<Rightarrow> True | Some m \<Rightarrow> utility > m)"

definition select_step ::
  "(server \<Rightarrow> real) \<Rightarrow> string option \<times> real option \<Rightarrow> server \<Rightarrow> string option \<times> real option" where
  "select_step util acc s =
     (let utility = util s
      in if exceeds utility (snd acc) then (Some (srv_id s), Some utility) else acc)"

definition select_server :: "(server \<Rightarrow> real) \<Rightarrow> server list \<Rightarrow> string option" where
  "select_server util srvs = fst (foldl (select_step util) (None, None) srvs)"

text \<open>The utility a work item computes for a host in the proposal phase (lines 210-211).\<close>

definition proposal_utility :: "simulation \<Rightarrow> device \<Rightarrow> server \<Rightarrow> real" where
  "proposal_utility sim d s =
     (case get_dynamic_cost sim d s of
        (lat, en, _) \<Rightarrow> device_calculate_utility d lat en * trust_score d)"

text \<open>The utility of the greedy branch (lines 241-242): read from the cost matrix.\<close>

definition greedy_utility :: "simulation \<Rightarrow> device \<Rightarrow> server \<Rightarrow> real" where
  "greedy_utility sim d s =
     device_calculate_utility d
       (latency (cost_matrix sim (dev_id d) (srv_id s)))
       (energy (cost_matrix sim (dev_id d) (srv_id s)))"

text \<open>
  An assignment is a Python dict from work-item id to host id or \<^verbatim>\<open>None\<close>. Its items
  are kept in insertion order; storing under a key that is present replaces the value in
  place, which is \<^const>\<open>AList.update\<close>.
\<close>

type_synonym assignment = "(string \<times> string option) list"

text \<open>
  Proposal phase (lines 206-215). \<^verbatim>\<open>proposals\<close> maps a host id to the list of work
  items (references) that proposed to it; every list starts empty.
\<close>

definition propose_step :: "simulation \<Rightarrow> (string \<Rightarrow> nat list) \<Rightarrow> nat \<Rightarrow> (string \<Rightarrow> nat list)" where
  "propose_step sim proposals j =
     (case select_server (proposal_utility sim (devices sim ! j)) (servers sim) of
        None \<Rightarrow> proposals
      | Some best_server_id \<Rightarrow> proposals(best_server_id := proposals best_server_id @ [j]))"

definition propose :: "simulation \<Rightarrow> string \<Rightarrow> nat list" where
  "propose sim = foldl (propose_step sim) (\<lambda>_. []) [0..<length (devices sim)]"

text \<open>
  Acceptance scan of one host (lines 224-230). The source evaluates
  \<^verbatim>\<open>server.calculate_utility\<close> a second time on the set it has just accepted; the call
  has the same arguments and no effect, so it returns the value of the first call.
\<close>

fun accept_scan ::
  "server \<Rightarrow> device list \<Rightarrow> nat list \<Rightarrow> real \<Rightarrow> nat list \<Rightarrow> py_error + nat list" where
  "accept_scan s ds accepted_devices best_utility [] = Inr accepted_devices"
| "accept_scan s ds accepted_devices best_utility (j # rest) =
     (let potential_new_set = accepted_devices @ [j]
      in case server_calculate_utility s (map ((!) ds) potential_new_set) of
           Inl e \<Rightarrow> Inl e
         | Inr u \<Rightarrow>
             if u > best_utility then accept_scan s ds potential_new_set u rest
             else accept_scan s ds accepted_devices best_utility rest)"

text \<open>
  Lines 223-224: the proposers are sorted by trust score, descending; Python's sort is
  stable also with \<^verbatim>\<open>reverse=True\<close>. The sort is in place; sorting the same list
  again (two hosts with one id) changes nothing. The scan starts from the utility of the
  empty set.
\<close>

definition acceptance :: "device list \<Rightarrow> server \<Rightarrow> nat list \<Rightarrow> py_error + nat list" where
  "acceptance ds s requesting_devices =
     (case server_calculate_utility s [] of
        Inl e \<Rightarrow> Inl e
      | Inr best_utility \<Rightarrow>
          accept_scan s ds [] best_utility
            (sort_key (\<lambda>j. - trust_score (ds ! j)) requesting_devices))"

text \<open>
  Lines 217-233: the hosts in order; a host without proposers is skipped; the accepted
  work items are entered into \<^verbatim>\<open>final_assignments\<close>.
\<close>

definition enter_accepted :: "device list \<Rightarrow> server \<Rightarrow> assignment \<Rightarrow> nat list \<Rightarrow> assignment" where
  "enter_accepted ds s final_assignments accepted_devices =
     foldl (\<lambda>fa j. AList.update (dev_id (ds ! j)) (Some (srv_id s)) fa)
       final_assignments accepted_devices"

fun negotiate ::
  "simulation \<Rightarrow> (string \<Rightarrow> nat list) \<Rightarrow> assignment \<Rightarrow> server list \<Rightarrow> py_error + assignment" where
  "negotiate sim proposals final_assignments [] = Inr final_assignments"
| "negotiate sim proposals final_assignments (s # rest) =
     (let requesting_devices = proposals (srv_id s)
      in if requesting_devices = [] then negotiate sim proposals final_assignments rest
         else case acceptance (devices sim) s requesting_devices of
                Inl e \<Rightarrow> Inl e
              | Inr accepted_devices \<Rightarrow>
                  negotiate sim proposals
                    (enter_accepted (devices sim) s final_assignments accepted_devices) rest)"

text \<open>
  \<^verbatim>\<open>random.choice(self.servers)\<close> raises \<^verbatim>\<open>IndexError\<close> on an empty list. The number
  drawn is an argument; it is reduced into the range of positions.
\<close>

definition random_choice :: "server list \<Rightarrow> nat \<Rightarrow> py_error + server" where
  "random_choice srvs r =
     (if srvs = [] then Inl IndexError else Inr (srvs ! (r mod length srvs)))"

datatype algorithm = Game_theory | Greedy | Random | Other

text \<open>
  Lines 237-247: the loop over the work items of the greedy and random branch;
  \<open>draw j\<close> is the number drawn for the work item at position \<open>j\<close>.
\<close>

fun assign_each ::
  "algorithm \<Rightarrow> (nat \<Rightarrow> nat) \<Rightarrow> simulation \<Rightarrow> assignment \<Rightarrow> nat list \<Rightarrow> py_error + assignment" where
  "assign_each alg draw sim assignments [] = Inr assignments"
| "assign_each alg draw sim assignments (j # rest) =
     (let d = devices sim ! j
      in if alg = Greedy then
           assign_each alg draw sim
             (AList.update (dev_id d) (select_server (greedy_utility sim d) (servers sim)) assignments)
             rest
         else case random_choice (servers sim) (draw j) of
                Inl e \<Rightarrow> Inl e
              | Inr s \<Rightarrow>
                  assign_each alg draw sim
                    (AList.update (dev_id d) (Some (srv_id s)) assignments) rest)"

text \<open>
  The assignment an iteration computes (lines 203-247). Any other algorithm name takes
  neither branch and leaves the assignment empty.
\<close>

definition decide :: "algorithm \<Rightarrow> (nat \<Rightarrow> nat) \<Rightarrow> simulation \<Rightarrow> py_error + assignment" where
  "decide alg draw sim =
     (case alg of
        Game_theory \<Rightarrow> negotiate sim (propose sim) [] (servers sim)
      | Other \<Rightarrow> Inr []
      | _ \<Rightarrow> assign_each alg draw sim [] [0..<length (devices sim)])"

text \<open>
  \<^verbatim>\<open>_assign_devices_to_servers\<close>: every hosted list is emptied; then, for every item of
  the assignment with a host id, the first host and the first work item with the ids are
  looked up (\<^verbatim>\<open>next(..., None)\<close>) and, when both exist, the work item is appended to the
  hosted list of that host.
\<close>

fun first_index :: "('a \<Rightarrow> bool) \<Rightarrow> 'a list \<Rightarrow> nat option" where
  "first_index P [] = None"
| "first_index P (x # xs) =
     (if P x then Some 0 else map_option Suc (first_index P xs))"

fun place :: "device list \<Rightarrow> server list \<Rightarrow> assignment \<Rightarrow> server list" where
  "place ds srvs [] = srvs"
| "place ds srvs ((dev, srv) # rest) =
     (case srv of
        None \<Rightarrow> place ds srvs rest
      | Some sid \<Rightarrow>
          (case (first_index (\<lambda>s. srv_id s = sid) srvs, first_index (\<lambda>d. dev_id d = dev) ds) of
             (Some k, Some j) \<Rightarrow>
               place ds (srvs[k := (srvs ! k)\<lparr>hosted := hosted (srvs ! k) @ [j]\<rparr>]) rest
           | _ \<Rightarrow> place ds srvs rest))"

definition assign_devices_to_servers :: "simulation \<Rightarrow> assignment \<Rightarrow> simulation" where
  "assign_devices_to_servers sim assignments =
     sim\<lparr>servers := place (devices sim) (map (\<lambda>s. s\<lparr>hosted := []\<rparr>) (servers sim)) assignments\<rparr>"

subsection \<open>Metrics recorder\<close>

text \<open>
  \<^verbatim>\<open>np.mean\<close> and \<^verbatim>\<open>np.std\<close> of a list of floats, as numpy documents them: the sum
  divided by the number of elements, and \<^verbatim>\<open>sqrt(mean(abs(x - x.mean())**2))\<close> (the
  default \<^verbatim>\<open>ddof=0\<close>). On an empty list both return \<^verbatim>\<open>nan\<close> with a warning, which
  is \<open>None\<close>.
\<close>

definition np_mean :: "real list \<Rightarrow> real option" where
  "np_mean xs = (if xs = [] then None else Some (sum_list xs / real (length xs)))"

definition np_std :: "real list \<Rightarrow> real option" where
  "np_std xs =
     (case np_mean xs of
        None \<Rightarrow> None
      | Some m \<Rightarrow> map_option sqrt (np_mean (map (\<lambda>x. \<bar>x - m\<bar> ^ 2) xs)))"

datatype metric =
  Avg_device_utility | Server_load_std_dev | Avg_trust_honest | Avg_trust_malicious
| Completion_ratio | Deadline_adherence | Malicious_accepted | Total_energy

text \<open>The \<^verbatim>\<open>history\<close> dict: one list per metric, all empty at the start of \<^verbatim>\<open>run\<close>.\<close>

type_synonym history = "metric \<Rightarrow> real option list"

definition history_init :: history where
  "history_init = (\<lambda>_. [])"

definition history_append :: "metric \<Rightarrow> real option \<Rightarrow> history \<Rightarrow> history" where
  "history_append key v h = h(key := h key @ [v])"

text \<open>The local counters of lines 259-260.\<close>

record tally =
  total_utility :: real
  deadlines_met :: nat
  malicious_accepted :: nat
  total_energy :: real
  assigned_count :: nat

definition tally_init :: tally where
  "tally_init = \<lparr>total_utility = 0, deadlines_met = 0, malicious_accepted = 0,
                  total_energy = 0, assigned_count = 0\<rparr>"

text \<open>
  Lines 262-275. \<^verbatim>\<open>next(d for d in ... if ...)\<close> without a default raises
  \<^verbatim>\<open>StopIteration\<close> when nothing matches. An infinite processing time misses every
  deadline.
\<close>

fun tally_loop :: "simulation \<Rightarrow> tally \<Rightarrow> assignment \<Rightarrow> py_error + tally" where
  "tally_loop sim t [] = Inr t"
| "tally_loop sim t ((dev, srv) # rest) =
     (case srv of
        None \<Rightarrow> tally_loop sim t rest
      | Some sid \<Rightarrow>
          (case List.find (\<lambda>d. dev_id d = dev) (devices sim) of
             None \<Rightarrow> Inl StopIteration
           | Some d \<Rightarrow>
               (case List.find (\<lambda>s. srv_id s = sid) (servers sim) of
                  None \<Rightarrow> Inl StopIteration
                | Some s \<Rightarrow>
                    (case get_dynamic_cost sim d s of
                       (lat, en, proc_time) \<Rightarrow>
                         tally_loop sim
                           (t\<lparr>assigned_count := assigned_count t + 1,
                              total_utility := total_utility t + device_calculate_utility d lat en,
                              total_energy := total_energy t + en,
                              deadlines_met :=
                                (if (case proc_time of None \<Rightarrow> False
                                     | Some p \<Rightarrow> lat + p \<le> deadline d)
                                 then deadlines_met t + 1 else deadlines_met t),
                              malicious_accepted :=
                                (if is_malicious d then malicious_accepted t + 1
                                 else malicious_accepted t)\<rparr>)
                           rest))))"

text \<open>
  Lines 254-291: the trust update of every work item, the counters, and the eight
  values appended to the history; the assignment is materialised after the first value
  and before the host loads are read.
\<close>

definition update_trust_scores :: "assignment \<Rightarrow> device list \<Rightarrow> device list" where
  "update_trust_scores assignments ds =
     (let assigned_ids = set (map fst assignments)
      in map (\<lambda>d. update_trust_score d (dev_id d \<in> assigned_ids)) ds)"

definition record_iteration ::
  "simulation \<Rightarrow> history \<Rightarrow> assignment \<Rightarrow> py_error + simulation \<times> history" where
  "record_iteration sim h assignments =
     (let sim1 = sim\<lparr>devices := update_trust_scores assignments (devices sim)\<rparr>
      in case tally_loop sim1 tally_init assignments of
           Inl e \<Rightarrow> Inl e
         | Inr t \<Rightarrow>
             (let n = length (devices sim1);
                  h1 = history_append Avg_device_utility
                         (Some (if devices sim1 \<noteq> [] then total_utility t / real n else 0)) h;
                  sim2 = assign_devices_to_servers sim1 assignments;
                  server_loads = map (get_current_cpu_load (devices sim2)) (servers sim2);
                  h2 = history_append Server_load_std_dev (np_std server_loads) h1;
                  honest_trust = map trust_score (filter (\<lambda>d. \<not> is_malicious d) (devices sim2));
                  malicious_trust = map trust_score (filter is_malicious (devices sim2));
                  h3 = history_append Avg_trust_honest
                         (if honest_trust \<noteq> [] then np_mean honest_trust else Some 1.0) h2;
                  h4 = history_append Avg_trust_malicious
                         (if malicious_trust \<noteq> [] then np_mean malicious_trust else Some 0.1) h3;
                  num_malicious_total = length malicious_trust;
                  h5 = history_append Completion_ratio
                         (Some (if devices sim2 \<noteq> [] then real (assigned_count t) / real n else 0)) h4;
                  h6 = history_append Deadline_adherence
                         (Some (if assigned_count t > 0
                                then real (deadlines_met t) / real (assigned_count t) else 0)) h5;
                  h7 = history_append Malicious_accepted
                         (Some (if num_malicious_total > 0
                                then real (malicious_accepted t) / real num_malicious_total else 0)) h6;
                  h8 = history_append Total_energy (Some (total_energy t)) h7
              in Inr (sim2, h8)))"

text \<open>
  Lines 248-252: for every key with a non-empty list the first value is appended again.
\<close>

definition replicate_first :: "history \<Rightarrow> history" where
  "replicate_first h = (\<lambda>key. if h key \<noteq> [] then h key @ [hd (h key)] else h key)"

text \<open>
  One pass of the loop body of \<^verbatim>\<open>run\<close> at iteration \<open>i\<close>. \<open>draw i j\<close> is the number
  \<^verbatim>\<open>random.choice\<close> draws at iteration \<open>i\<close> for the work item at position \<open>j\<close>.
\<close>

definition iteration ::
  "algorithm \<Rightarrow> (nat \<Rightarrow> nat \<Rightarrow> nat) \<Rightarrow> nat \<Rightarrow> simulation \<times> history \<Rightarrow> py_error + simulation \<times> history" where
  "iteration alg draw i st =
     (case decide alg (draw i) (fst st) of
        Inl e \<Rightarrow> Inl e
      | Inr assignments \<Rightarrow>
          if (alg = Greedy \<or> alg = Random) \<and> i > 0 then Inr (fst st, replicate_first (snd st))
          else record_iteration (fst st) (snd st) assignments)"

text \<open>
  \<^verbatim>\<open>run(algorithm, iterations)\<close>: the state after \<open>Suc k\<close> passes is the pass at
  iteration \<open>k\<close> applied to the state after \<open>k\<close> passes. The objects of the two
  populations are mutated in place, so the simulation is returned with the history.
\<close>

fun run ::
  "algorithm \<Rightarrow> (nat \<Rightarrow> nat \<Rightarrow> nat) \<Rightarrow> nat \<Rightarrow> simulation \<Rightarrow> py_error + simulation \<times> history" where
  "run alg draw 0 sim = Inr (sim, history_init)"
| "run alg draw (Suc k) sim =
     (case run alg draw k sim of
        Inl e \<Rightarrow> Inl e
      | Inr st \<Rightarrow> iteration alg draw k st)"

subsection \<open>Benchmark aggregator\<close>

text \<open>
  Lines 25-32 of \<^verbatim>\<open>simulation.py\<close>, for one algorithm and one metric.
  \<^verbatim>\<open>histories[0]\<close> raises \<^verbatim>\<open>IndexError\<close> when there is no trial; \<^verbatim>\<open>np.array\<close> of
  rows of different lengths raises \<^verbatim>\<open>ValueError\<close>. \<^verbatim>\<open>np.mean(..., axis=0)\<close> and
  \<^verbatim>\<open>np.std(..., axis=0)\<close> reduce every column of the trials-by-iterations array; a
  \<^verbatim>\<open>nan\<close> in a column makes the result of that column \<^verbatim>\<open>nan\<close>.
\<close>

definition np_array :: "'a list list \<Rightarrow> py_error + 'a list list" where
  "np_array rows =
     (if \<forall>r \<in> set rows. length r = length (hd rows) then Inr rows else Inl ValueError)"

definition column :: "'a list list \<Rightarrow> nat \<Rightarrow> 'a list" where
  "column rows t = map (\<lambda>r. r ! t) rows"

definition reduce_axis0 ::
  "(real list \<Rightarrow> real option) \<Rightarrow> real option list list \<Rightarrow> real option list" where
  "reduce_axis0 f rows =
     map (\<lambda>t. case those (column rows t) of None \<Rightarrow> None | Some xs \<Rightarrow> f xs)
       [0..<length (hd rows)]"

definition aggregate ::
  "history list \<Rightarrow> metric \<Rightarrow> py_error + real option list \<times> real option list" where
  "aggregate histories key =
     (if histories = [] then Inl IndexError
      else case np_array (map (\<lambda>run. run key) histories) of
             Inl e \<Rightarrow> Inl e
           | Inr metric_data \<Rightarrow>
               Inr (reduce_axis0 np_mean metric_data, reduce_axis0 np_std metric_data))"

text \<open>The spec's words: arithmetic mean and population standard deviation of a sample.\<close>

definition arithmetic_mean :: "real list \<Rightarrow> real" where
  "arithmetic_mean xs = (\<Sum>x\<leftarrow>xs. x) / real (length xs)"

definition population_std :: "real list \<Rightarrow> real" where
  "population_std xs =
     sqrt ((\<Sum>x\<leftarrow>xs. (x - arithmetic_mean xs) ^ 2) / real (length xs))"

text \<open>Repeated assigned updates of one work item.\<close>

definition assigned_updates :: "nat \<Rightarrow> device \<Rightarrow> device" where
  "assigned_updates n d = ((\<lambda>x. update_trust_score x True) ^^ n) d"

subsection \<open>Concrete scenarios\<close>

text \<open>A cost matrix with the same entry for every pair.\<close>

definition flat_costs :: "string \<Rightarrow> string \<Rightarrow> cost_entry" where
  "flat_costs = (\<lambda>_ _. \<lparr>latency = 10, energy = 2\<rparr>)"

text \<open>Draws of \<^verbatim>\<open>random.choice\<close>: always position 0; at iteration \<open>i\<close> position \<open>i\<close>.\<close>

definition draw_first :: "nat \<Rightarrow> nat" where
  "draw_first = (\<lambda>_. 0)"

definition draw_iteration :: "nat \<Rightarrow> nat \<Rightarrow> nat" where
  "draw_iteration = (\<lambda>i _. i)"

text \<open>One host of capacity 1 and one malicious work item that demands all of it.\<close>

definition sim_rejected :: simulation where
  "sim_rejected =
     \<lparr>devices = [SensorTask ''m'' 1.0 True 30], servers = [Mote ''h'' 1.0],
      cost_matrix = flat_costs\<rparr>"

text \<open>An honest work item in mid-range and a freshly constructed malicious one.\<close>

definition honest_half :: device where
  "honest_half = (SensorTask ''a'' 1.0 False 30)\<lparr>trust_score := 0.5\<rparr>"

definition malicious_fresh :: device where
  "malicious_fresh = IoTEdgeModule ''m'' 1.0 True 30"

text \<open>One host of capacity 2 and two honest work items that each demand 1.\<close>

definition sim_pair :: simulation where
  "sim_pair =
     \<lparr>devices = [SensorTask ''a'' 1.0 False 30, SensorTask ''b'' 1.0 False 30],
      servers = [Mote ''h'' 2.0], cost_matrix = flat_costs\<rparr>"

text \<open>
  The utility of the claim about the greedy strategy: the work item's utility of the
  load-aware latency and the energy that \<^verbatim>\<open>_get_dynamic_cost\<close> returns.
\<close>

definition load_aware_utility :: "simulation \<Rightarrow> device \<Rightarrow> server \<Rightarrow> real" where
  "load_aware_utility sim d s =
     (case get_dynamic_cost sim d s of (lat, en, _) \<Rightarrow> device_calculate_utility d lat en)"

text \<open>
  Two hosts of capacity 2 and one honest work item; the base latency is 10 on the first
  host and 12 on the second. \<open>sim_loaded\<close> is the state one game-theoretic iteration
  leaves behind: the first host holds the work item.
\<close>

definition two_host_costs :: "string \<Rightarrow> string \<Rightarrow> cost_entry" where
  "two_host_costs =
     (\<lambda>_ s. if s = ''h1'' then \<lparr>latency = 10, energy = 2\<rparr> else \<lparr>latency = 12, energy = 2\<rparr>)"

definition sim_two_hosts :: simulation where
  "sim_two_hosts =
     \<lparr>devices = [SensorTask ''a'' 1.0 False 30],
      servers = [Mote ''h1'' 2.0, Mote ''h2'' 2.0], cost_matrix = two_host_costs\<rparr>"

definition sim_loaded :: simulation where
  "sim_loaded =
     sim_two_hosts\<lparr>servers := [(Mote ''h1'' 2.0)\<lparr>hosted := [0]\<rparr>, Mote ''h2'' 2.0]\<rparr>"

text \<open>The population of \<open>sim_rejected\<close> without its host, and the state and history after
  one greedy iteration on it.\<close>

definition sim_no_host :: simulation where
  "sim_no_host = sim_rejected\<lparr>servers := []\<rparr>"

definition sim_no_host_after :: simulation where
  "sim_no_host_after =
     sim_no_host\<lparr>devices := [(SensorTask ''m'' 1.0 True 30)\<lparr>consecutive_rejections := 1\<rparr>]\<rparr>"

definition history_no_host_after :: history where
  "history_no_host_after =
     (\<lambda>key. case key of
        Server_load_std_dev \<Rightarrow> [None]
      | Avg_trust_honest \<Rightarrow> [Some 1.0]
      | Avg_trust_malicious \<Rightarrow> [Some 0.1]
      | _ \<Rightarrow> [Some 0])"

subsection \<open>Auxiliary notions for the proofs\<close>

text \<open>
  What one item of an assignment contributes to the hosted list of the host with id
  \<open>sid\<close>.
\<close>

definition hosted_entry :: "device list \<Rightarrow> string \<Rightarrow> string \<times> string option \<Rightarrow> nat list" where
  "hosted_entry ds sid e =
     (if snd e = Some sid
      then (case first_index (\<lambda>d. dev_id d = fst e) ds of None \<Rightarrow> [] | Some j \<Rightarrow> [j])
      else [])"

text \<open>An assignment that only names ids of the two populations.\<close>

definition known_ids :: "simulation \<Rightarrow> assignment \<Rightarrow> bool" where
  "known_ids sim A \<longleftrightarrow>
     (\<forall>e\<in>set A. fst e \<in> dev_id ` set (devices sim) \<and>
        (case snd e of None \<Rightarrow> True | Some sid \<Rightarrow> sid \<in> srv_id ` set (servers sim)))"

text \<open>The two populations after \<open>n\<close> iterations of \<^verbatim>\<open>run\<close>.\<close>

definition state_after :: "algorithm \<Rightarrow> (nat \<Rightarrow> nat \<Rightarrow> nat) \<Rightarrow> nat \<Rightarrow> simulation \<Rightarrow> py_error + simulation" where
  "state_after alg draw n sim = map_sum id fst (run alg draw n sim)"

text \<open>
  Two states with the same ids, utility weights and cost matrix: what the greedy choice
  reads.
\<close>

definition same_population :: "simulation \<Rightarrow> simulation \<Rightarrow> bool" where
  "same_population sim' sim \<longleftrightarrow>
     map dev_id (devices sim') = map dev_id (devices sim) \<and>
     map weight_latency (devices sim') = map weight_latency (devices sim) \<and>
     map weight_energy (devices sim') = map weight_energy (devices sim) \<and>
     map srv_id (servers sim') = map srv_id (servers sim) \<and>
     cost_matrix sim' = cost_matrix sim"

text \<open>Three trials of two iterations each, the same values under every metric.\<close>

definition trial_a :: history where "trial_a = (\<lambda>_. [Some 1, Some 2])"
definition trial_b :: history where "trial_b = (\<lambda>_. [Some 2, Some 4])"
definition trial_c :: history where "trial_c = (\<lambda>_. [Some 3, Some 9])"

section \<open>Properties\<close>

lemma update_trust_score_malicious_flag [simp]:
  "is_malicious (update_trust_score d b) = is_malicious d"
  by (simp add: update_trust_score_def Let_def)


lemmas entity_defs = SensorTask_def IoTEdgeModule_def Mote_def AzureIoTEdgeDevice_def
  device_calculate_utility_def update_trust_score_def get_current_cpu_load_def
  server_calculate_utility_def

lemmas decide_defs = decide_def propose_def propose_step_def select_server_def select_step_def
  exceeds_def proposal_utility_def greedy_utility_def get_dynamic_cost_def acceptance_def
  enter_accepted_def random_choice_def

subsection \<open>Trust evolution\<close>
lemma assigned_updates_Suc:
  "assigned_updates (Suc n) d = update_trust_score (assigned_updates n d) True"
  by (simp add: assigned_updates_def)

lemma assigned_updates_malicious [simp]:
  "is_malicious (assigned_updates n d) = is_malicious d"
  by (induction n) (simp_all add: assigned_updates_def)

lemma honest_assigned_trust:
  "\<not> is_malicious d \<Longrightarrow>
   trust_score (update_trust_score d True) = min 1 (trust_score d * 1.05)"
  by (simp add: update_trust_score_def)

lemma malicious_assigned_trust:
  "is_malicious d \<Longrightarrow>
   trust_score (update_trust_score d True) =
     max 0.1 (trust_score d * (0.90 - 0.05 * real_of_int (consecutive_rejections d + 1)))"
  by (simp add: update_trust_score_def Let_def)

lemma malicious_assigned_counter:
  "is_malicious d \<Longrightarrow>
   consecutive_rejections (assigned_updates n d) = consecutive_rejections d + int n"
  by (induction n) (simp_all add: assigned_updates_Suc update_trust_score_def Let_def, simp add: assigned_updates_def)

lemma honest_closed_form:
  assumes "\<not> is_malicious d" "0 \<le> trust_score d" "trust_score d \<le> 1"
  shows "trust_score (assigned_updates n d) = min 1 (trust_score d * 1.05 ^ n)"
proof (induction n)
  case 0
  with assms show ?case by (simp add: assigned_updates_def)
next
  case (Suc n)
  have "trust_score (assigned_updates (Suc n) d) = min 1 (min 1 (trust_score d * 1.05 ^ n) * 1.05)"
    using assms(1) Suc by (simp add: assigned_updates_Suc honest_assigned_trust)
  also have "\<dots> = min 1 (trust_score d * 1.05 ^ Suc n)"
    by (simp add: min_def)
  finally show ?case .
qed

lemma honest_reaches_one:
  assumes "\<not> is_malicious d" "0.1 \<le> trust_score d" "trust_score d \<le> 1" "180 \<le> n"
  shows "trust_score (assigned_updates n d) = 1"
proof -
  have "1 + real n * 0.05 \<le> (1 + 0.05) ^ n"
    by (rule Bernoulli_inequality) simp
  moreover have "10 \<le> 1 + real n * 0.05" using assms(4) by simp
  ultimately have "10 \<le> (1.05::real) ^ n" by simp
  then have "0.1 * 10 \<le> trust_score d * 1.05 ^ n"
    using assms(2) by (intro mult_mono) simp_all
  then show ?thesis
    using assms by (simp add: honest_closed_form)
qed

lemma malicious_floor:
  assumes "is_malicious d" "0.1 \<le> trust_score d"
  shows "0.1 \<le> trust_score (assigned_updates n d)"
  using assms by (cases n) (simp_all add: assigned_updates_Suc malicious_assigned_trust, simp add: assigned_updates_def)

lemma malicious_reaches_floor:
  assumes "is_malicious d" "0.1 \<le> trust_score d" "0 \<le> consecutive_rejections d" "18 \<le> n"
  shows "trust_score (assigned_updates n d) = 0.1"
proof -
  obtain m where n: "n = Suc m" and m: "17 \<le> m"
    using assms(4) by (cases n) simp_all
  let ?e = "assigned_updates m d"
  have c: "consecutive_rejections ?e = consecutive_rejections d + int m"
    using assms(1) by (rule malicious_assigned_counter)
  have "0.90 - 0.05 * real_of_int (consecutive_rejections ?e + 1) \<le> 0"
    using assms(3) m by (simp add: c)
  moreover have "0 \<le> trust_score ?e"
    using malicious_floor [OF assms(1,2), of m] by simp
  ultimately have "trust_score ?e * (0.90 - 0.05 * real_of_int (consecutive_rejections ?e + 1)) \<le> 0"
    using mult_nonneg_nonpos by blast
  then show ?thesis
    using assms(1) by (simp add: n assigned_updates_Suc malicious_assigned_trust)
qed

lemma malicious_step_down:
  assumes "is_malicious d" "0.1 \<le> trust_score d" "0 \<le> consecutive_rejections d"
  shows "trust_score (update_trust_score d True) \<le> trust_score d"
proof -
  have "1 \<le> real_of_int (consecutive_rejections d + 1)"
    using assms(3) by simp
  moreover have "1 \<le> x \<Longrightarrow> 0.90 - 0.05 * x \<le> 1" for x :: real
    by simp
  ultimately have "0.90 - 0.05 * real_of_int (consecutive_rejections d + 1) \<le> 1"
    by blast
  moreover have "0 \<le> trust_score d"
    using assms(2) by simp
  ultimately have "trust_score d * (0.90 - 0.05 * real_of_int (consecutive_rejections d + 1)) \<le> trust_score d * 1"
    by (rule mult_left_mono)
  then show ?thesis using assms(1,2) by (simp add: malicious_assigned_trust)
qed


text \<open>
  C8. A work item that is assigned at every trust update and starts with a score in
  [0.1, 1.0]: if it is honest, its score never decreases from one update to the next and
  converges to 1.0; if it is malicious (its rejection counter is never negative: it starts
  at 0 and is only incremented), its score never increases and converges to 0.1.
\<close>

theorem assigned_trust_monotone_converges:
  fixes d :: device
  defines "t \<equiv> \<lambda>n. trust_score (assigned_updates n d)"
  assumes "0.1 \<le> trust_score d" and "trust_score d \<le> 1.0"
  shows "(\<not> is_malicious d \<longrightarrow> (\<forall>n. t n \<le> t (Suc n)) \<and> t \<longlonglongrightarrow> 1.0) \<and>
         (is_malicious d \<and> 0 \<le> consecutive_rejections d \<longrightarrow>
            (\<forall>n. t (Suc n) \<le> t n) \<and> t \<longlonglongrightarrow> 0.1)"
proof (intro conjI impI allI)
  fix n assume h: "\<not> is_malicious d"
  have "t n = min 1 (trust_score d * 1.05 ^ n)" "t (Suc n) = min 1 (trust_score d * 1.05 ^ Suc n)"
    unfolding t_def using h assms by (simp_all add: honest_closed_form)
  moreover have "trust_score d * 1.05 ^ n \<le> trust_score d * 1.05 ^ Suc n"
    using assms by simp
  ultimately show "t n \<le> t (Suc n)" by (simp add: min_def)
next
  assume h: "\<not> is_malicious d"
  have "eventually (\<lambda>n. t n = 1) sequentially"
    unfolding eventually_sequentially t_def
    using honest_reaches_one [OF h] assms by auto
  then show "t \<longlonglongrightarrow> 1.0" by (simp add: tendsto_eventually)
next
  fix n assume h: "is_malicious d \<and> 0 \<le> consecutive_rejections d"
  let ?e = "assigned_updates n d"
  have "is_malicious ?e" using h by simp
  moreover have "0.1 \<le> trust_score ?e" by (rule malicious_floor) (use h assms in auto)
  moreover have "0 \<le> consecutive_rejections ?e" using h by (simp add: malicious_assigned_counter)
  ultimately show "t (Suc n) \<le> t n"
    unfolding t_def assigned_updates_Suc by (rule malicious_step_down)
next
  assume h: "is_malicious d \<and> 0 \<le> consecutive_rejections d"
  have "eventually (\<lambda>n. t n = 0.1) sequentially"
    unfolding eventually_sequentially t_def
    using malicious_reaches_floor h assms by blast
  then show "t \<longlonglongrightarrow> 0.1" by (simp add: tendsto_eventually)
qed

theorem assigned_trust_monotone_converges_witness:
  "(0.1 \<le> trust_score honest_half \<and> trust_score honest_half \<le> 1.0 \<and> \<not> is_malicious honest_half) \<and>
   (\<forall>n. trust_score (assigned_updates n honest_half)
          \<le> trust_score (assigned_updates (Suc n) honest_half)) \<and>
   (\<lambda>n. trust_score (assigned_updates n honest_half)) \<longlonglongrightarrow> 1.0 \<and>
   (0.1 \<le> trust_score malicious_fresh \<and> trust_score malicious_fresh \<le> 1.0 \<and>
    is_malicious malicious_fresh \<and> 0 \<le> consecutive_rejections malicious_fresh) \<and>
   (\<forall>n. trust_score (assigned_updates (Suc n) malicious_fresh)
          \<le> trust_score (assigned_updates n malicious_fresh)) \<and>
   (\<lambda>n. trust_score (assigned_updates n malicious_fresh)) \<longlonglongrightarrow> 0.1"
  using assigned_trust_monotone_converges [of honest_half]
    assigned_trust_monotone_converges [of malicious_fresh]
  by (simp add: honest_half_def malicious_fresh_def SensorTask_def IoTEdgeModule_def)

lemma decide_sim_rejected: "decide Game_theory dr sim_rejected = Inr []"
  by (simp add: sim_rejected_def flat_costs_def decide_defs entity_defs Let_def power2_eq_square)

text \<open>
  C1. The score does leave [0.1, 1.0]: the not-assigned branch multiplies by 0.995
  without the floor its sibling branch applies. A freshly constructed malicious work item
  (score 0.1) that is not assigned has score 0.0995 afterwards; this happens in the first
  game-theoretic iteration of \<open>sim_rejected\<close>, where the host rejects the only proposer.
\<close>

theorem unassigned_decay_below_floor:
  "trust_score (update_trust_score (SensorTask ''m'' 1.0 True 30) False) = 0.0995 \<and>
   (case run Game_theory draw 1 sim_rejected of
      Inl e \<Rightarrow> []
    | Inr st \<Rightarrow> map trust_score (devices (fst st))) = [0.0995]"
proof
  show "trust_score (update_trust_score (SensorTask ''m'' 1.0 True 30) False) = 0.0995"
    by (simp add: update_trust_score_def SensorTask_def)
  show "(case run Game_theory draw 1 sim_rejected of
      Inl e \<Rightarrow> []
    | Inr st \<Rightarrow> map trust_score (devices (fst st))) = [0.0995]"
    by (simp add: One_nat_def iteration_def decide_sim_rejected record_iteration_def
          update_trust_scores_def tally_init_def)
       (simp add: sim_rejected_def entity_defs assign_devices_to_servers_def)
qed

subsection \<open>The argmax loop and the assignment dictionary\<close>

lemma select_fold:
  "xs \<noteq> [] \<Longrightarrow>
   \<exists>k<length xs. foldl (select_step util) (None, None) xs = (Some (srv_id (xs ! k)), Some (util (xs ! k)))
      \<and> (\<forall>m<length xs. util (xs ! m) \<le> util (xs ! k)) \<and> (\<forall>m<k. util (xs ! m) < util (xs ! k))"
proof (induction xs rule: rev_induct)
  case Nil
  then show ?case by simp
next
  case (snoc x xs)
  show ?case
  proof (cases "xs = []")
    case True
    then show ?thesis by (simp add: select_step_def exceeds_def)
  next
    case False
    with snoc.IH obtain k where k: "k < length xs"
      and f: "foldl (select_step util) (None, None) xs = (Some (srv_id (xs ! k)), Some (util (xs ! k)))"
      and mx: "\<forall>m<length xs. util (xs ! m) \<le> util (xs ! k)"
      and fst: "\<forall>m<k. util (xs ! m) < util (xs ! k)"
      by blast
    show ?thesis
    proof (cases "util x > util (xs ! k)")
      case True
      have "foldl (select_step util) (None, None) (xs @ [x]) = (Some (srv_id x), Some (util x))"
        using True by (simp add: f select_step_def exceeds_def)
      moreover have "\<forall>m<length (xs @ [x]). util ((xs @ [x]) ! m) \<le> util x"
        using mx True by (auto simp: nth_append less_Suc_eq) 
      moreover have "\<forall>m<length xs. util ((xs @ [x]) ! m) < util x"
        using mx True by (auto simp: nth_append intro: le_less_trans)
      ultimately show ?thesis
        by (intro exI [of _ "length xs"]) simp
    next
      case False
      have "foldl (select_step util) (None, None) (xs @ [x]) = (Some (srv_id (xs ! k)), Some (util (xs ! k)))"
        using False by (simp add: f select_step_def exceeds_def)
      moreover have "\<forall>m<length (xs @ [x]). util ((xs @ [x]) ! m) \<le> util (xs ! k)"
        using mx False by (auto simp: nth_append less_Suc_eq)
      moreover have "\<forall>m<k. util ((xs @ [x]) ! m) < util (xs ! k)"
        using fst k by (auto simp: nth_append)
      ultimately show ?thesis
        using k by (intro exI [of _ k]) (simp add: nth_append)
    qed
  qed
qed

lemma select_server_first_maximum:
  "xs \<noteq> [] \<Longrightarrow>
   \<exists>k<length xs. select_server util xs = Some (srv_id (xs ! k))
      \<and> (\<forall>m<length xs. util (xs ! m) \<le> util (xs ! k)) \<and> (\<forall>m<k. util (xs ! m) < util (xs ! k))"
  using select_fold [of xs util] by (auto simp: select_server_def)

lemma select_server_Nil: "select_server util [] = None"
  by (simp add: select_server_def)

lemma map_of_foldl_update:
  "j \<in> set js \<Longrightarrow> inj_on key (set js) \<Longrightarrow>
   map_of (foldl (\<lambda>a j. AList.update (key j) (val j) a) A js) (key j) = Some (val j)"
proof (induction js rule: rev_induct)
  case Nil
  then show ?case by simp
next
  case (snoc x xs)
  then show ?case
    by (auto simp: update_conv' inj_on_def)
qed

lemma map_fst_foldl_update:
  "fst ` set (foldl (\<lambda>a j. AList.update (key j) (val j) a) A js) = fst ` set A \<union> key ` set js"
  by (induction js rule: rev_induct) (auto simp: dom_update)

lemma distinct_foldl_update:
  "distinct (map fst A) \<Longrightarrow> distinct (map fst (foldl (\<lambda>a j. AList.update (key j) (val j) a) A js))"
  by (induction js rule: rev_induct) (auto simp: distinct_update)

lemma assign_each_greedy:
  "assign_each Greedy draw sim A js =
   Inr (foldl (\<lambda>a j. AList.update (dev_id (devices sim ! j))
          (select_server (greedy_utility sim (devices sim ! j)) (servers sim)) a) A js)"
  by (induction js arbitrary: A) (simp_all add: Let_def)

lemma assign_each_random:
  "servers sim \<noteq> [] \<Longrightarrow> assign_each Random draw sim A js =
   Inr (foldl (\<lambda>a j. AList.update (dev_id (devices sim ! j))
          (Some (srv_id (servers sim ! (draw j mod length (servers sim))))) a) A js)"
  by (induction js arbitrary: A) (simp_all add: Let_def random_choice_def)

lemma select_fold_cong:
  "list_all2 (\<lambda>x y. srv_id x = srv_id y \<and> util x = util' y) xs ys \<Longrightarrow>
   foldl (select_step util) acc xs = foldl (select_step util') acc ys"
proof (induction xs ys arbitrary: acc rule: list_all2_induct)
  case Nil
  show ?case by simp
next
  case (Cons x xs y ys)
  from Cons.hyps(1) have e: "srv_id x = srv_id y" "util x = util' y"
    by simp_all
  have "select_step util acc x = select_step util' acc y"
    unfolding select_step_def by (simp only: e)
  then show ?case
    by (simp add: Cons.IH)
qed

lemma select_server_cong:
  "list_all2 (\<lambda>x y. srv_id x = srv_id y \<and> util x = util' y) xs ys \<Longrightarrow>
   select_server util xs = select_server util' ys"
  by (simp add: select_server_def select_fold_cong)

lemma greedy_choice_same_ids:
  assumes "map srv_id (servers sim') = map srv_id (servers sim)"
    and "cost_matrix sim' = cost_matrix sim"
    and "dev_id d' = dev_id d" "weight_latency d' = weight_latency d" "weight_energy d' = weight_energy d"
  shows "select_server (greedy_utility sim' d') (servers sim') =
         select_server (greedy_utility sim d) (servers sim)"
proof (rule select_server_cong)
  have "length (servers sim') = length (servers sim)"
    using assms(1) by (rule map_eq_imp_length_eq)
  moreover have "srv_id (servers sim' ! k) = srv_id (servers sim ! k)" if "k < length (servers sim)" for k
    using assms(1) that by (metis calculation nth_map)
  ultimately show "list_all2 (\<lambda>x y. srv_id x = srv_id y \<and> greedy_utility sim' d' x = greedy_utility sim d y)
     (servers sim') (servers sim)"
    using assms(2-) by (simp add: list_all2_conv_all_nth greedy_utility_def device_calculate_utility_def)
qed

lemma decide_greedy_same_ids:
  assumes "map srv_id (servers sim') = map srv_id (servers sim)"
    and "cost_matrix sim' = cost_matrix sim"
    and "list_all2 (\<lambda>d' d. dev_id d' = dev_id d \<and> weight_latency d' = weight_latency d \<and> weight_energy d' = weight_energy d) (devices sim') (devices sim)"
  shows "decide Greedy draw' sim' = decide Greedy draw sim"
proof -
  have len: "length (devices sim') = length (devices sim)"
    using assms(3) by (rule list_all2_lengthD)
  have "foldl (\<lambda>a j. AList.update (dev_id (devices sim' ! j))
          (select_server (greedy_utility sim' (devices sim' ! j)) (servers sim')) a) A js =
        foldl (\<lambda>a j. AList.update (dev_id (devices sim ! j))
          (select_server (greedy_utility sim (devices sim ! j)) (servers sim)) a) A js"
    if "set js \<subseteq> {..<length (devices sim)}" for A js
    using that
  proof (induction js arbitrary: A)
    case Nil
    show ?case by simp
  next
    case (Cons j js)
    then have j: "j < length (devices sim)" by simp
    have d: "dev_id (devices sim' ! j) = dev_id (devices sim ! j)"
       "weight_latency (devices sim' ! j) = weight_latency (devices sim ! j)"
       "weight_energy (devices sim' ! j) = weight_energy (devices sim ! j)"
      using assms(3) j by (simp_all add: list_all2_conv_all_nth)
    show ?case
      using Cons by (simp add: d(1) greedy_choice_same_ids [OF assms(1,2) d])
  qed
  moreover have "set [0..<length (devices sim)] \<subseteq> {..<length (devices sim)}"
    by auto
  ultimately show ?thesis
    by (simp add: decide_def assign_each_greedy len)
qed


subsection \<open>Game-theoretic acceptance\<close>

text \<open>
  C2, as the code behaves. One host of capacity 2.0 and two honest work items that each
  demand 1.0 with trust 1.0, for every cost matrix, ids and deadlines: both propose to the
  host, the scan accepts the first proposer (utility 0.625 > 0) and rejects the second
  (utility -0.5 is not above 0.625), so only the first work item is assigned.
\<close>

theorem pair_acceptance_keeps_first_only:
  "acceptance [SensorTask a 1.0 False dl1, SensorTask b 1.0 False dl2] (Mote h 2.0) [0, 1] = Inr [0] \<and>
   decide Game_theory draw
     \<lparr>devices = [SensorTask a 1.0 False dl1, SensorTask b 1.0 False dl2],
      servers = [Mote h 2.0], cost_matrix = cm\<rparr> = Inr [(a, Some h)]"
  by (simp add: decide_defs entity_defs Let_def power2_eq_square)

text \<open>
  C2 as stated fails: in \<open>sim_pair\<close> both work items propose to the host, and the
  acceptance scan assigns the first one only.
\<close>

theorem pair_not_both_assigned:
  "propose sim_pair ''h'' = [0, 1] \<and>
   acceptance (devices sim_pair) (hd (servers sim_pair)) (propose sim_pair ''h'') = Inr [0] \<and>
   decide Game_theory draw_first sim_pair = Inr [(''a'', Some ''h'')]"
  by (simp add: sim_pair_def flat_costs_def decide_defs entity_defs Let_def power2_eq_square)

subsection \<open>Greedy selection\<close>

text \<open>
  C3 as stated fails: in \<open>sim_loaded\<close> the first host carries load 0.5, so its
  load-aware latency is 15 against 12 on the idle second host, and the host that is optimal
  under the load-aware utility is the second; greedy reads the base latencies 10 and 12
  and selects the first.
\<close>

theorem greedy_ignores_load:
  "decide Greedy draw_first sim_loaded = Inr [(''a'', Some ''h1'')] \<and>
   select_server (load_aware_utility sim_loaded (devices sim_loaded ! 0)) (servers sim_loaded)
     = Some ''h2''"
  by (simp add: sim_loaded_def sim_two_hosts_def two_host_costs_def load_aware_utility_def
        decide_defs entity_defs Let_def)

text \<open>
  C3, as the code behaves. With unique work-item ids and at least one host, greedy maps
  every work item to the first host, in host order, that maximises the work item's utility
  of the base latency and energy of the cost matrix; the result is the same for every
  content of the hosted lists, that is for every load state.
\<close>

theorem greedy_selects_by_base_cost:
  assumes "distinct (map dev_id (devices sim))" and "j < length (devices sim)"
    and "servers sim \<noteq> []"
  shows "\<exists>A k. decide Greedy draw sim = Inr A \<and> k < length (servers sim)
           \<and> map_of A (dev_id (devices sim ! j)) = Some (Some (srv_id (servers sim ! k)))
           \<and> (\<forall>m<length (servers sim).
                 greedy_utility sim (devices sim ! j) (servers sim ! m)
                   \<le> greedy_utility sim (devices sim ! j) (servers sim ! k))
           \<and> (\<forall>m<k. greedy_utility sim (devices sim ! j) (servers sim ! m)
                   < greedy_utility sim (devices sim ! j) (servers sim ! k))
           \<and> (\<forall>loads. decide Greedy draw
                 (sim\<lparr>servers := map (\<lambda>s. s\<lparr>hosted := loads s\<rparr>) (servers sim)\<rparr>) = Inr A)"
proof -
  let ?val = "\<lambda>j. select_server (greedy_utility sim (devices sim ! j)) (servers sim)"
  let ?A = "foldl (\<lambda>a j. AList.update (dev_id (devices sim ! j)) (?val j) a) [] [0..<length (devices sim)]"
  have A: "decide Greedy draw sim = Inr ?A"
    by (simp add: decide_def assign_each_greedy)
  obtain k where k: "k < length (servers sim)"
    and sel: "?val j = Some (srv_id (servers sim ! k))"
    and mx: "\<forall>m<length (servers sim).
                 greedy_utility sim (devices sim ! j) (servers sim ! m)
                   \<le> greedy_utility sim (devices sim ! j) (servers sim ! k)"
    and first: "\<forall>m<k. greedy_utility sim (devices sim ! j) (servers sim ! m)
                   < greedy_utility sim (devices sim ! j) (servers sim ! k)"
    using select_server_first_maximum [OF assms(3)] by blast
  have inj: "inj_on (\<lambda>j. dev_id (devices sim ! j)) (set [0..<length (devices sim)])"
  proof (rule inj_onI)
    fix x y
    assume "x \<in> set [0..<length (devices sim)]" "y \<in> set [0..<length (devices sim)]"
      and "dev_id (devices sim ! x) = dev_id (devices sim ! y)"
    then show "x = y"
      using nth_eq_iff_index_eq [OF assms(1), of x y] by simp
  qed
  have "map_of ?A (dev_id (devices sim ! j)) = Some (?val j)"
    using map_of_foldl_update [of j "[0..<length (devices sim)]" "\<lambda>j. dev_id (devices sim ! j)" ?val "[]"]
      assms(2) inj by simp
  then have look: "map_of ?A (dev_id (devices sim ! j)) = Some (Some (srv_id (servers sim ! k)))"
    by (simp add: sel)
  have "decide Greedy draw (sim\<lparr>servers := map (\<lambda>s. s\<lparr>hosted := loads s\<rparr>) (servers sim)\<rparr>) = Inr ?A" for loads
    using decide_greedy_same_ids [of "sim\<lparr>servers := map (\<lambda>s. s\<lparr>hosted := loads s\<rparr>) (servers sim)\<rparr>" sim draw draw] A
    by (simp add: list_all2_conv_all_nth comp_def)
  with A k look mx first show ?thesis by blast
qed

theorem greedy_selects_by_base_cost_witness:
  "distinct (map dev_id (devices sim_loaded)) \<and> 0 < length (devices sim_loaded) \<and> servers sim_loaded \<noteq> [] \<and>
   (\<exists>A k. decide Greedy draw_first sim_loaded = Inr A \<and> k < length (servers sim_loaded)
           \<and> map_of A (dev_id (devices sim_loaded ! 0)) = Some (Some (srv_id (servers sim_loaded ! k)))
           \<and> (\<forall>m<length (servers sim_loaded).
                 greedy_utility sim_loaded (devices sim_loaded ! 0) (servers sim_loaded ! m)
                   \<le> greedy_utility sim_loaded (devices sim_loaded ! 0) (servers sim_loaded ! k))
           \<and> (\<forall>m<k. greedy_utility sim_loaded (devices sim_loaded ! 0) (servers sim_loaded ! m)
                   < greedy_utility sim_loaded (devices sim_loaded ! 0) (servers sim_loaded ! k))
           \<and> (\<forall>loads. decide Greedy draw_first
                 (sim_loaded\<lparr>servers := map (\<lambda>s. s\<lparr>hosted := loads s\<rparr>) (servers sim_loaded)\<rparr>) = Inr A))"
proof -
  have h: "distinct (map dev_id (devices sim_loaded))" "0 < length (devices sim_loaded)"
    "servers sim_loaded \<noteq> []"
    by (simp_all add: sim_loaded_def sim_two_hosts_def)
  show ?thesis
    using h greedy_selects_by_base_cost [OF h, of draw_first] by blast
qed

subsection \<open>Materialising an assignment\<close>

lemma first_index_None: "first_index P xs = None \<longleftrightarrow> (\<forall>x\<in>set xs. \<not> P x)"
  by (induction xs) auto

lemma first_index_Some:
  "first_index P xs = Some k \<Longrightarrow> k < length xs \<and> P (xs ! k) \<and> (\<forall>m<k. \<not> P (xs ! m))"
proof (induction xs arbitrary: k)
  case Nil
  then show ?case by simp
next
  case (Cons x xs)
  show ?case
  proof (cases "P x")
    case True
    with Cons.prems show ?thesis by simp
  next
    case False
    with Cons.prems obtain k' where k': "first_index P xs = Some k'" "k = Suc k'"
      by auto
    from Cons.IH [OF k'(1)] False k'(2) show ?thesis
      by (auto simp: less_Suc_eq_0_disj)
  qed
qed

lemma first_index_distinct:
  assumes "distinct (map f xs)" "k < length xs"
  shows "first_index (\<lambda>x. f x = f (xs ! k)) xs = Some k"
proof (cases "first_index (\<lambda>x. f x = f (xs ! k)) xs")
  case None
  then show ?thesis using assms(2) by (auto simp: first_index_None)
next
  case (Some m)
  from first_index_Some [OF Some] have "m < length xs" "f (xs ! m) = f (xs ! k)"
    by simp_all
  then have "m = k"
    using nth_eq_iff_index_eq [OF assms(1), of m k] assms(2) by simp
  with Some show ?thesis by simp
qed

lemma place_Nil [simp]: "place ds [] A = []"
  by (induction A) (auto split: option.splits)

lemma hosted_update_ids:
  "map srv_id (srvs[k := (srvs ! k)\<lparr>hosted := hs\<rparr>]) = map srv_id srvs"
  by (cases "k < length srvs") (simp_all add: map_update list_update_same_conv list_update_beyond not_less)

lemma place_srv_ids: "map srv_id (place ds srvs A) = map srv_id srvs"
proof (induction A arbitrary: srvs)
  case Nil
  show ?case by simp
next
  case (Cons e A)
  obtain dev v where e: "e = (dev, v)" by (cases e)
  show ?case
    by (simp add: e Cons.IH hosted_update_ids split: option.splits)
qed

lemma place_length: "length (place ds srvs A) = length srvs"
  using place_srv_ids [of ds srvs A] by (metis length_map)

lemma place_skips_unknown:
  assumes "dev \<notin> dev_id ` set ds \<or> sid \<notin> set (map srv_id srvs)"
  shows "place ds srvs (A1 @ (dev, Some sid) # A2) = place ds srvs (A1 @ A2)"
  using assms
proof (induction A1 arbitrary: srvs)
  case Nil
  then have "first_index (\<lambda>d. dev_id d = dev) ds = None \<or> first_index (\<lambda>s. srv_id s = sid) srvs = None"
    by (auto simp: first_index_None)
  then show ?case
    by (auto split: option.splits)
next
  case (Cons e A1)
  obtain dev' v where e: "e = (dev', v)" by (cases e)
  show ?case
    using Cons.prems by (simp add: e Cons.IH hosted_update_ids split: option.splits)
qed

lemma place_hosted:
  assumes "distinct (map srv_id srvs)" "k < length srvs"
  shows "hosted (place ds srvs A ! k) =
         hosted (srvs ! k) @ concat (map (hosted_entry ds (srv_id (srvs ! k))) A)"
  using assms
proof (induction A arbitrary: srvs)
  case Nil
  show ?case by simp
next
  case (Cons e A)
  obtain dev v where e: "e = (dev, v)" by (cases e)
  show ?case
  proof (cases v)
    case None
    then show ?thesis
      using Cons by (simp add: e hosted_entry_def)
  next
    case (Some sid)
    show ?thesis
    proof (cases "first_index (\<lambda>s. srv_id s = sid) srvs")
      case None
      then have "srv_id (srvs ! k) \<noteq> sid"
        using Cons.prems(2) by (auto simp: first_index_None)
      then show ?thesis
        using Cons None by (auto simp add: e Some hosted_entry_def)
    next
      case k0: (Some k0)
      from first_index_Some [OF k0] have k0l: "k0 < length srvs" and k0id: "srv_id (srvs ! k0) = sid"
        by simp_all
      have same: "srv_id (srvs ! k) = sid \<longleftrightarrow> k = k0"
        using nth_eq_iff_index_eq [OF Cons.prems(1), of k k0] Cons.prems(2) k0l k0id by auto
      show ?thesis
      proof (cases "first_index (\<lambda>d. dev_id d = dev) ds")
        case None
        then show ?thesis
          using Cons k0 by (simp add: e Some hosted_entry_def)
      next
        case j: (Some j)
        let ?srvs = "srvs[k0 := (srvs ! k0)\<lparr>hosted := hosted (srvs ! k0) @ [j]\<rparr>]"
        have d: "distinct (map srv_id ?srvs)" and l: "k < length ?srvs"
          using Cons.prems by (simp_all add: hosted_update_ids)
        have id: "srv_id (?srvs ! k) = srv_id (srvs ! k)"
          using Cons.prems(2) k0l by (cases "k = k0") simp_all
        have "hosted (place ds srvs (e # A) ! k) = hosted (place ds ?srvs A ! k)"
          by (simp add: e Some k0 j)
        also have "\<dots> = hosted (?srvs ! k) @ concat (map (hosted_entry ds (srv_id (srvs ! k))) A)"
          using Cons.IH [OF d l] by (simp only: id)
        also have "hosted (?srvs ! k) = hosted (srvs ! k) @ hosted_entry ds (srv_id (srvs ! k)) e"
          using same k0l Cons.prems(2) k0id by (cases "k = k0") (auto simp add: e Some hosted_entry_def j)
        finally show ?thesis by simp
      qed
    qed
  qed
qed

lemma update_entries:
  "e \<in> set (AList.update k v al) \<Longrightarrow> e \<in> set al \<or> e = (k, v)"
  by (induction al) (auto split: if_splits)

lemma foldl_update_entries:
  "e \<in> set (foldl (\<lambda>a j. AList.update (key j) (val j) a) A js) \<Longrightarrow>
   e \<in> set A \<or> (\<exists>j\<in>set js. e = (key j, val j))"
  by (induction js arbitrary: e rule: rev_induct) (auto dest!: update_entries)

lemma tally_loop_unassigned:
  "\<forall>e\<in>set A. snd e = None \<Longrightarrow> tally_loop sim t A = Inr t"
  by (induction A) auto

lemmas record_defs = record_iteration_def update_trust_scores_def tally_init_def
  history_append_def history_init_def assign_devices_to_servers_def np_mean_def np_std_def

text \<open>
  C6, as the code behaves. An item of the assignment whose work-item id or host id is not
  in the population is skipped without any error: materialising the assignment gives the
  state that the assignment without this item gives.
\<close>

theorem materialization_skips_unknown_ids:
  assumes "dev \<notin> dev_id ` set (devices sim) \<or> sid \<notin> srv_id ` set (servers sim)"
  shows "assign_devices_to_servers sim (A1 @ (dev, Some sid) # A2) =
         assign_devices_to_servers sim (A1 @ A2)"
proof -
  have "dev \<notin> dev_id ` set (devices sim) \<or>
        sid \<notin> set (map srv_id (map (\<lambda>s. s\<lparr>hosted := []\<rparr>) (servers sim)))"
    using assms by (simp add: comp_def)
  then show ?thesis
    unfolding assign_devices_to_servers_def by (simp only: place_skips_unknown)
qed

theorem materialization_skips_unknown_ids_witness:
  "''ghost'' \<notin> dev_id ` set (devices sim_rejected) \<and>
   assign_devices_to_servers sim_rejected ([] @ (''ghost'', Some ''h'') # []) =
   assign_devices_to_servers sim_rejected ([] @ [])"
proof -
  have g: "''ghost'' \<notin> dev_id ` set (devices sim_rejected)"
    by (simp add: sim_rejected_def SensorTask_def)
  then have h: "''ghost'' \<notin> dev_id ` set (devices sim_rejected) \<or>
      ''h'' \<notin> srv_id ` set (servers sim_rejected)"
    by (rule disjI1)
  show ?thesis
    using g materialization_skips_unknown_ids [OF h, of "[]" "[]"] by blast
qed

text \<open>
  C6 as stated fails: materialisation returns normally for an assignment that names the
  unknown work item \<open>ghost\<close>, and for one that names the unknown host \<open>nowhere\<close>; the
  hosted lists stay empty.
\<close>

theorem unknown_ids_skipped_silently:
  "''ghost'' \<notin> dev_id ` set (devices sim_rejected) \<and>
   assign_devices_to_servers sim_rejected [(''ghost'', Some ''h'')] = sim_rejected \<and>
   ''nowhere'' \<notin> srv_id ` set (servers sim_rejected) \<and>
   assign_devices_to_servers sim_rejected [(''m'', Some ''nowhere'')] = sim_rejected"
  by (simp add: sim_rejected_def SensorTask_def Mote_def assign_devices_to_servers_def)

subsection \<open>An empty host population\<close>

text \<open>
  C7. With no host and one work item, the random strategy raises \<^verbatim>\<open>IndexError\<close> in
  \<^verbatim>\<open>random.choice\<close>, while its sibling branches give the unassigned outcome the claim
  describes: greedy maps the work item to \<^verbatim>\<open>None\<close>, the negotiation leaves it out.
\<close>

theorem random_without_hosts_raises:
  "run Random draw_iteration 1 sim_no_host = Inl IndexError \<and>
   decide Greedy draw_first sim_no_host = Inr [(''m'', None)] \<and>
   decide Game_theory draw_first sim_no_host = Inr []"
  by (simp add: One_nat_def iteration_def sim_no_host_def sim_rejected_def decide_defs SensorTask_def Let_def)

lemma record_iteration_devices:
  "record_iteration sim h A = Inr (sim', h') \<Longrightarrow>
   devices sim' = map (\<lambda>d. update_trust_score d (dev_id d \<in> fst ` set A)) (devices sim)"
  by (auto simp: record_iteration_def Let_def update_trust_scores_def assign_devices_to_servers_def
        split: sum.splits)

lemma decide_greedy_no_host:
  assumes "servers sim = []"
  shows "\<exists>A. decide Greedy draw sim = Inr A \<and> fst ` set A = dev_id ` set (devices sim)
           \<and> (\<forall>e\<in>set A. snd e = None)"
proof -
  let ?A = "foldl (\<lambda>a j. AList.update (dev_id (devices sim ! j)) None a) [] [0..<length (devices sim)]"
  have "decide Greedy draw sim = Inr ?A"
    by (simp add: decide_def assign_each_greedy assms select_server_Nil)
  moreover have "fst ` set ?A = dev_id ` set (devices sim)"
  proof -
    have "fst ` set ?A = (\<lambda>j. dev_id (devices sim ! j)) ` {0..<length (devices sim)}"
      by (simp add: map_fst_foldl_update)
    also have "\<dots> = dev_id ` ((!) (devices sim) ` {0..<length (devices sim)})"
      by (simp add: image_image)
    also have "\<dots> = dev_id ` set (devices sim)"
      by (simp add: nth_image)
    finally show ?thesis .
  qed
  moreover have "\<forall>e\<in>set ?A. snd e = None"
    by (auto dest!: foldl_update_entries)
  ultimately show ?thesis by blast
qed

lemma record_iteration_unassigned:
  assumes "servers sim = []" and "\<forall>e\<in>set A. snd e = None"
  shows "\<exists>sim' h'. record_iteration sim h A = Inr (sim', h')
           \<and> h' Avg_device_utility = h Avg_device_utility @ [Some 0]
           \<and> h' Completion_ratio = h Completion_ratio @ [Some 0]
           \<and> h' Deadline_adherence = h Deadline_adherence @ [Some 0]
           \<and> h' Malicious_accepted = h Malicious_accepted @ [Some 0]
           \<and> h' Total_energy = h Total_energy @ [Some 0]"
  by (simp add: record_iteration_def Let_def tally_loop_unassigned [OF assms(2)] tally_init_def
        history_append_def)

text \<open>
  C10. In a pass that records (every pass but the replicated ones), a work item gets the
  assigned branch of the trust update exactly when its id is a key of the assignment,
  whatever the value. With no host, greedy enters every work item with the value
  \<^verbatim>\<open>None\<close>: every work item then gets the assigned branch, while the counters skip the
  items, so the utility sum, completion ratio, deadline adherence, malicious acceptance
  and total energy recorded are all 0.
\<close>

theorem assigned_iff_key_of_assignment:
  "(decide alg (draw i) sim = Inr A \<and> iteration alg draw i (sim, h) = Inr (sim', h')
      \<and> \<not> ((alg = Greedy \<or> alg = Random) \<and> 0 < i)
    \<longrightarrow> devices sim' = map (\<lambda>d. update_trust_score d (dev_id d \<in> fst ` set A)) (devices sim)) \<and>
   (servers sim = [] \<longrightarrow>
      (\<exists>B sim1 h1. decide Greedy (draw 0) sim = Inr B
         \<and> fst ` set B = dev_id ` set (devices sim) \<and> (\<forall>e\<in>set B. snd e = None)
         \<and> iteration Greedy draw 0 (sim, h) = Inr (sim1, h1)
         \<and> devices sim1 = map (\<lambda>d. update_trust_score d True) (devices sim)
         \<and> h1 Avg_device_utility = h Avg_device_utility @ [Some 0]
         \<and> h1 Completion_ratio = h Completion_ratio @ [Some 0]
         \<and> h1 Deadline_adherence = h Deadline_adherence @ [Some 0]
         \<and> h1 Malicious_accepted = h Malicious_accepted @ [Some 0]
         \<and> h1 Total_energy = h Total_energy @ [Some 0]))"
proof (intro conjI impI)
  assume a: "decide alg (draw i) sim = Inr A \<and> iteration alg draw i (sim, h) = Inr (sim', h')
      \<and> \<not> ((alg = Greedy \<or> alg = Random) \<and> 0 < i)"
  then have "record_iteration sim h A = Inr (sim', h')"
    by (auto simp: iteration_def)
  then show "devices sim' = map (\<lambda>d. update_trust_score d (dev_id d \<in> fst ` set A)) (devices sim)"
    by (rule record_iteration_devices)
next
  assume s: "servers sim = []"
  from decide_greedy_no_host [OF s, of "draw 0"] obtain B where B: "decide Greedy (draw 0) sim = Inr B"
    "fst ` set B = dev_id ` set (devices sim)" "\<forall>e\<in>set B. snd e = None"
    by blast
  from record_iteration_unassigned [OF s B(3), of h] obtain sim1 h1 where
    r: "record_iteration sim h B = Inr (sim1, h1)"
    and m: "h1 Avg_device_utility = h Avg_device_utility @ [Some 0]"
      "h1 Completion_ratio = h Completion_ratio @ [Some 0]"
      "h1 Deadline_adherence = h Deadline_adherence @ [Some 0]"
      "h1 Malicious_accepted = h Malicious_accepted @ [Some 0]"
      "h1 Total_energy = h Total_energy @ [Some 0]"
    by blast
  have "iteration Greedy draw 0 (sim, h) = Inr (sim1, h1)"
    by (simp add: iteration_def B(1) r)
  moreover have "devices sim1 = map (\<lambda>d. update_trust_score d True) (devices sim)"
    using record_iteration_devices [OF r] B(2) by simp
  ultimately show "\<exists>B sim1 h1. decide Greedy (draw 0) sim = Inr B
         \<and> fst ` set B = dev_id ` set (devices sim) \<and> (\<forall>e\<in>set B. snd e = None)
         \<and> iteration Greedy draw 0 (sim, h) = Inr (sim1, h1)
         \<and> devices sim1 = map (\<lambda>d. update_trust_score d True) (devices sim)
         \<and> h1 Avg_device_utility = h Avg_device_utility @ [Some 0]
         \<and> h1 Completion_ratio = h Completion_ratio @ [Some 0]
         \<and> h1 Deadline_adherence = h Deadline_adherence @ [Some 0]
         \<and> h1 Malicious_accepted = h Malicious_accepted @ [Some 0]
         \<and> h1 Total_energy = h Total_energy @ [Some 0]"
    using B m by blast
qed

lemma no_host_decide: "decide Greedy (draw_iteration 0) sim_no_host = Inr [(''m'', None)]"
  by (simp add: sim_no_host_def sim_rejected_def decide_defs SensorTask_def Let_def)

lemma no_host_iteration:
  "iteration Greedy draw_iteration 0 (sim_no_host, history_init) = Inr (sim_no_host_after, history_no_host_after)"
  apply (simp add: iteration_def no_host_decide)
  apply (simp add: record_defs Let_def sim_no_host_def sim_rejected_def sim_no_host_after_def history_no_host_after_def
      SensorTask_def update_trust_score_def fun_eq_iff split: metric.splits)
  done

theorem assigned_iff_key_of_assignment_witness:
  "(decide Greedy (draw_iteration 0) sim_no_host = Inr [(''m'', None)]
      \<and> iteration Greedy draw_iteration 0 (sim_no_host, history_init)
          = Inr (sim_no_host_after, history_no_host_after)
      \<and> \<not> ((Greedy = Greedy \<or> Greedy = Random) \<and> (0::nat) < 0)) \<and>
   devices sim_no_host_after =
     map (\<lambda>d. update_trust_score d (dev_id d \<in> fst ` set [(''m'', None :: string option)]))
       (devices sim_no_host) \<and>
   servers sim_no_host = [] \<and>
   (\<exists>B sim1 h1. decide Greedy (draw_iteration 0) sim_no_host = Inr B
         \<and> fst ` set B = dev_id ` set (devices sim_no_host) \<and> (\<forall>e\<in>set B. snd e = None)
         \<and> iteration Greedy draw_iteration 0 (sim_no_host, history_init) = Inr (sim1, h1)
         \<and> devices sim1 = map (\<lambda>d. update_trust_score d True) (devices sim_no_host)
         \<and> h1 Avg_device_utility = history_init Avg_device_utility @ [Some 0]
         \<and> h1 Completion_ratio = history_init Completion_ratio @ [Some 0]
         \<and> h1 Deadline_adherence = history_init Deadline_adherence @ [Some 0]
         \<and> h1 Malicious_accepted = history_init Malicious_accepted @ [Some 0]
         \<and> h1 Total_energy = history_init Total_energy @ [Some 0])"
proof -
  have h: "decide Greedy (draw_iteration 0) sim_no_host = Inr [(''m'', None)]
      \<and> iteration Greedy draw_iteration 0 (sim_no_host, history_init)
          = Inr (sim_no_host_after, history_no_host_after)
      \<and> \<not> ((Greedy = Greedy \<or> Greedy = Random) \<and> (0::nat) < 0)"
    by (simp add: no_host_decide no_host_iteration)
  have s: "servers sim_no_host = []"
    by (simp add: sim_no_host_def)
  show ?thesis
    using h s
      assigned_iff_key_of_assignment [of Greedy draw_iteration 0 sim_no_host "[(''m'', None)]"
        history_init sim_no_host_after history_no_host_after]
    by blast
qed

subsection \<open>Replication under the greedy and random strategies\<close>

lemma update_trust_score_fixed [simp]:
  "dev_id (update_trust_score d b) = dev_id d"
  "weight_latency (update_trust_score d b) = weight_latency d"
  "weight_energy (update_trust_score d b) = weight_energy d"
  "cpu_request (update_trust_score d b) = cpu_request d"
  by (simp_all add: update_trust_score_def Let_def)

lemma update_trust_scores_ids [simp]:
  "map dev_id (update_trust_scores A ds) = map dev_id ds"
  "length (update_trust_scores A ds) = length ds"
  by (simp_all add: update_trust_scores_def Let_def comp_def)

lemma select_server_in:
  "select_server util xs = Some sid \<Longrightarrow> sid \<in> srv_id ` set xs"
proof (cases "xs = []")
  case True
  assume "select_server util xs = Some sid"
  with True show ?thesis by (simp add: select_server_Nil)
next
  case False
  assume a: "select_server util xs = Some sid"
  from select_server_first_maximum [OF False, of util] a show ?thesis
    by auto
qed

lemma known_ids_update:
  "known_ids sim A \<Longrightarrow> k \<in> dev_id ` set (devices sim) \<Longrightarrow>
   (case v of None \<Rightarrow> True | Some sid \<Rightarrow> sid \<in> srv_id ` set (servers sim)) \<Longrightarrow>
   known_ids sim (AList.update k v A)"
  unfolding known_ids_def by (auto dest!: update_entries)

lemma assign_each_known_ids:
  "assign_each alg draw sim A0 js = Inr A \<Longrightarrow> known_ids sim A0 \<Longrightarrow>
   set js \<subseteq> {..<length (devices sim)} \<Longrightarrow> known_ids sim A"
proof (induction js arbitrary: A0)
  case Nil
  then show ?case by simp
next
  case (Cons j js)
  then have j: "dev_id (devices sim ! j) \<in> dev_id ` set (devices sim)"
    by simp
  show ?case
  proof (cases "alg = Greedy")
    case True
    let ?v = "select_server (greedy_utility sim (devices sim ! j)) (servers sim)"
    have "known_ids sim (AList.update (dev_id (devices sim ! j)) ?v A0)"
      using Cons.prems(2) j by (rule known_ids_update) (auto split: option.splits dest: select_server_in)
    then show ?thesis
      using Cons True by (simp add: Let_def)
  next
    case False
    with Cons.prems(1) obtain s where s: "random_choice (servers sim) (draw j) = Inr s"
      by (auto simp: Let_def split: sum.splits)
    then have "srv_id s \<in> srv_id ` set (servers sim)"
      by (auto simp: random_choice_def split: if_splits)
    with Cons.prems(2) j have "known_ids sim (AList.update (dev_id (devices sim ! j)) (Some (srv_id s)) A0)"
      by (intro known_ids_update) simp_all
    then show ?thesis
      using Cons False s by (simp add: Let_def)
  qed
qed

lemma assign_each_distinct:
  "assign_each alg draw sim A0 js = Inr A \<Longrightarrow> distinct (map fst A0) \<Longrightarrow> distinct (map fst A)"
  by (induction js arbitrary: A0) (auto simp: Let_def distinct_update split: if_splits sum.splits)

lemma negotiate_distinct:
  "negotiate sim props fa srvs = Inr A \<Longrightarrow> distinct (map fst fa) \<Longrightarrow> distinct (map fst A)"
  by (induction srvs arbitrary: fa)
     (auto simp: Let_def enter_accepted_def distinct_foldl_update split: if_splits sum.splits)

lemma decide_distinct:
  "decide alg draw sim = Inr A \<Longrightarrow> distinct (map fst A)"
  by (cases alg) (auto simp: decide_def dest: negotiate_distinct assign_each_distinct)

lemma tally_loop_total:
  "known_ids sim A \<Longrightarrow> \<exists>t'. tally_loop sim t A = Inr t'"
proof (induction A arbitrary: t)
  case Nil
  show ?case by simp
next
  case (Cons e A)
  obtain dev v where e: "e = (dev, v)" by (cases e)
  from Cons.prems have k: "known_ids sim A"
    by (simp add: known_ids_def)
  show ?case
  proof (cases v)
    case None
    then show ?thesis using Cons.IH [OF k] by (simp add: e)
  next
    case (Some sid)
    from Cons.prems have "dev \<in> dev_id ` set (devices sim)" "sid \<in> srv_id ` set (servers sim)"
      by (simp_all add: known_ids_def e Some)
    then have "List.find (\<lambda>d. dev_id d = dev) (devices sim) \<noteq> None"
      "List.find (\<lambda>s. srv_id s = sid) (servers sim) \<noteq> None"
      by (auto simp: find_None_iff)
    then obtain d s where f: "List.find (\<lambda>d. dev_id d = dev) (devices sim) = Some d"
      "List.find (\<lambda>s. srv_id s = sid) (servers sim) = Some s"
      by blast
    obtain lat en pt where c: "get_dynamic_cost sim d s = (lat, en, pt)"
      by (cases "get_dynamic_cost sim d s")
    show ?thesis
      unfolding e Some tally_loop.simps option.case f c prod.case by (rule Cons.IH [OF k])
  qed
qed

lemma known_ids_same_ids:
  "map dev_id (devices sim') = map dev_id (devices sim) \<Longrightarrow>
   map srv_id (servers sim') = map srv_id (servers sim) \<Longrightarrow>
   known_ids sim' A = known_ids sim A"
proof -
  assume "map dev_id (devices sim') = map dev_id (devices sim)"
    "map srv_id (servers sim') = map srv_id (servers sim)"
  then have "set (map dev_id (devices sim')) = set (map dev_id (devices sim))"
    "set (map srv_id (servers sim')) = set (map srv_id (servers sim))"
    by simp_all
  then have "dev_id ` set (devices sim') = dev_id ` set (devices sim)"
    "srv_id ` set (servers sim') = srv_id ` set (servers sim)"
    by simp_all
  then show ?thesis
    unfolding known_ids_def by (simp only:)
qed

lemma record_iteration_frame:
  assumes "record_iteration sim h A = Inr (sim', h')"
  shows "devices sim' = update_trust_scores A (devices sim)"
    and "servers sim' =
           place (update_trust_scores A (devices sim)) (map (\<lambda>s. s\<lparr>hosted := []\<rparr>) (servers sim)) A"
    and "cost_matrix sim' = cost_matrix sim"
  using assms
  by (auto simp: record_iteration_def Let_def assign_devices_to_servers_def split: sum.splits)

lemma record_iteration_total:
  assumes "known_ids sim A"
  shows "\<exists>sim' h'. record_iteration sim h A = Inr (sim', h') \<and> (\<forall>key. \<exists>v. h' key = h key @ [v])"
proof -
  let ?sim1 = "sim\<lparr>devices := update_trust_scores A (devices sim)\<rparr>"
  have "known_ids ?sim1 A"
    using assms known_ids_same_ids [of ?sim1 sim A] by simp
  then obtain t where t: "tally_loop ?sim1 tally_init A = Inr t"
    using tally_loop_total by blast
  obtain sim' h' where r: "record_iteration sim h A = Inr (sim', h')"
    by (simp add: record_iteration_def Let_def t)
  have "\<exists>v. h' key = h key @ [v]" for key
    using r by (cases key) (auto simp: record_iteration_def Let_def t history_append_def)
  with r show ?thesis by blast
qed

lemma decide_random_raises:
  assumes "servers sim = []" "devices sim \<noteq> []"
  shows "decide Random dr sim = Inl IndexError"
proof -
  have "[0..<length (devices sim)] = 0 # [1..<length (devices sim)]"
    using assms(2) by (simp add: upt_conv_Cons)
  then show ?thesis
    by (simp add: decide_def Let_def random_choice_def assms(1))
qed

lemma decide_baseline_total:
  assumes "alg = Greedy \<or> alg = Random" "\<not> (alg = Random \<and> servers sim = [] \<and> devices sim \<noteq> [])"
  shows "\<exists>A. decide alg dr sim = Inr A \<and> known_ids sim A"
proof -
  have "\<exists>A. assign_each alg dr sim [] [0..<length (devices sim)] = Inr A"
  proof (cases "alg = Greedy")
    case True
    then show ?thesis by (simp add: assign_each_greedy)
  next
    case False
    with assms have r: "alg = Random" and c: "servers sim \<noteq> [] \<or> devices sim = []"
      by auto
    from c show ?thesis
    proof
      assume "servers sim \<noteq> []"
      then show ?thesis by (simp add: r assign_each_random)
    next
      assume "devices sim = []"
      then show ?thesis by simp
    qed
  qed
  then obtain A where A: "assign_each alg dr sim [] [0..<length (devices sim)] = Inr A"
    by blast
  have "known_ids sim A"
    using A by (rule assign_each_known_ids) (auto simp: known_ids_def)
  moreover have "decide alg dr sim = Inr A"
    using assms(1) A by (auto simp: decide_def)
  ultimately show ?thesis by blast
qed

lemma replicate_first_replicate:
  "replicate_first (\<lambda>key. replicate (Suc n) (f key)) = (\<lambda>key. replicate (Suc (Suc n)) (f key))"
  by (rule ext) (simp add: replicate_first_def replicate_append_same)

lemma baseline_run_replicates:
  assumes alg: "alg = Greedy \<or> alg = Random"
    and ok: "\<not> (alg = Random \<and> servers sim = [] \<and> devices sim \<noteq> [])"
  shows "\<exists>A sim1 h1. decide alg (draw 0) sim = Inr A
           \<and> record_iteration sim history_init A = Inr (sim1, h1)
           \<and> iteration alg draw 0 (sim, history_init) = Inr (sim1, h1)
           \<and> (\<forall>key. length (h1 key) = 1)
           \<and> (\<forall>n. run alg draw (Suc n) sim = Inr (sim1, \<lambda>key. replicate (Suc n) (hd (h1 key))))"
proof -
  from decide_baseline_total [OF alg ok] obtain A where A: "decide alg (draw 0) sim = Inr A"
    and k: "known_ids sim A"
    by blast
  from record_iteration_total [OF k] obtain sim1 h1 where
    r: "record_iteration sim history_init A = Inr (sim1, h1)"
    and h1: "\<forall>key. \<exists>v. h1 key = history_init key @ [v]"
    by blast
  have it0: "iteration alg draw 0 (sim, history_init) = Inr (sim1, h1)"
    by (simp add: iteration_def A r)
  have len: "length (h1 key) = 1" for key
    using h1 [rule_format, of key] by (auto simp: history_init_def)
  have h1r: "h1 = (\<lambda>key. replicate (Suc 0) (hd (h1 key)))"
  proof (rule ext)
    fix key
    from h1 obtain v where "h1 key = history_init key @ [v]" by blast
    then show "h1 key = replicate (Suc 0) (hd (h1 key))"
      by (simp add: history_init_def)
  qed
  have "length (devices sim1) = length (devices sim)" "length (servers sim1) = length (servers sim)"
    by (simp_all add: record_iteration_frame [OF r] place_length)
  then have "devices sim1 = [] \<longleftrightarrow> devices sim = []" "servers sim1 = [] \<longleftrightarrow> servers sim = []"
    by (simp_all only: length_0_conv [symmetric])
  then have ok1: "\<not> (alg = Random \<and> servers sim1 = [] \<and> devices sim1 \<noteq> [])"
    using ok by simp
  have "run alg draw (Suc n) sim = Inr (sim1, \<lambda>key. replicate (Suc n) (hd (h1 key)))" for n
  proof (induction n)
    case 0
    have "run alg draw (Suc 0) sim = Inr (sim1, h1)"
      by (simp add: it0)
    with h1r show ?case by simp
  next
    case (Suc n)
    from decide_baseline_total [OF alg ok1] obtain B where "decide alg (draw (Suc n)) sim1 = Inr B"
      by blast
    then have "iteration alg draw (Suc n) (sim1, \<lambda>key. replicate (Suc n) (hd (h1 key))) =
        Inr (sim1, replicate_first (\<lambda>key. replicate (Suc n) (hd (h1 key))))"
      using alg by (simp add: iteration_def)
    then have "iteration alg draw (Suc n) (sim1, \<lambda>key. replicate (Suc n) (hd (h1 key))) =
        Inr (sim1, \<lambda>key. replicate (Suc (Suc n)) (hd (h1 key)))"
      by (simp only: replicate_first_replicate)
    moreover have "run alg draw (Suc (Suc n)) sim =
        iteration alg draw (Suc n) (sim1, \<lambda>key. replicate (Suc n) (hd (h1 key)))"
      by (simp only: run.simps(2) [of alg draw "Suc n"] Suc sum.case)
    ultimately show ?case by (simp only:)
  qed
  with A r it0 len show ?thesis by blast
qed

lemma run_raises_on:
  "run alg draw (Suc 0) sim = Inl e \<Longrightarrow> run alg draw (Suc n) sim = Inl e"
  by (induction n) simp_all

text \<open>
  C5. Under greedy and random, the pass at iteration 0 is the only one that updates trust,
  computes metrics and materialises the assignment: after any positive number of
  iterations the simulation is in the state the pass at iteration 0 left, and the history
  of every metric is the value of iteration 0 repeated once per iteration. The one
  exception raises before anything is recorded: random with work items and no host.
\<close>

theorem baseline_history_replicates_iteration_0:
  assumes "alg = Greedy \<or> alg = Random"
  shows "if alg = Random \<and> servers sim = [] \<and> devices sim \<noteq> []
         then (\<forall>n. run alg draw (Suc n) sim = Inl IndexError)
         else (\<exists>sim1 h1. iteration alg draw 0 (sim, history_init) = Inr (sim1, h1)
                 \<and> (\<forall>key. length (h1 key) = 1)
                 \<and> (\<forall>n. run alg draw (Suc n) sim =
                          Inr (sim1, \<lambda>key. replicate (Suc n) (hd (h1 key)))))"
proof (cases "alg = Random \<and> servers sim = [] \<and> devices sim \<noteq> []")
  case True
  then have "decide alg (draw 0) sim = Inl IndexError"
    by (simp add: decide_random_raises)
  then have "run alg draw (Suc 0) sim = Inl IndexError"
    by (simp add: iteration_def)
  then have "\<forall>n. run alg draw (Suc n) sim = Inl IndexError"
    by (blast intro: run_raises_on)
  then show ?thesis unfolding if_P [OF True] .
next
  case False
  from baseline_run_replicates [OF assms False, of draw] have
    "\<exists>sim1 h1. iteration alg draw 0 (sim, history_init) = Inr (sim1, h1)
                 \<and> (\<forall>key. length (h1 key) = 1)
                 \<and> (\<forall>n. run alg draw (Suc n) sim =
                          Inr (sim1, \<lambda>key. replicate (Suc n) (hd (h1 key))))"
    by blast
  then show ?thesis unfolding if_not_P [OF False] .
qed

theorem baseline_history_replicates_iteration_0_witness:
  "(Greedy = Greedy \<or> Greedy = Random) \<and>
   \<not> (Greedy = Random \<and> servers sim_two_hosts = [] \<and> devices sim_two_hosts \<noteq> []) \<and>
   (\<exists>sim1 h1. iteration Greedy draw_iteration 0 (sim_two_hosts, history_init) = Inr (sim1, h1)
       \<and> (\<forall>key. length (h1 key) = 1)
       \<and> (\<forall>n. run Greedy draw_iteration (Suc n) sim_two_hosts =
                Inr (sim1, \<lambda>key. replicate (Suc n) (hd (h1 key))))) \<and>
   (Random = Greedy \<or> Random = Random) \<and>
   \<not> (Random = Random \<and> servers sim_two_hosts = [] \<and> devices sim_two_hosts \<noteq> []) \<and>
   (\<exists>sim1 h1. iteration Random draw_iteration 0 (sim_two_hosts, history_init) = Inr (sim1, h1)
       \<and> (\<forall>key. length (h1 key) = 1)
       \<and> (\<forall>n. run Random draw_iteration (Suc n) sim_two_hosts =
                Inr (sim1, \<lambda>key. replicate (Suc n) (hd (h1 key)))))"
proof -
  have g: "Greedy = Greedy \<or> Greedy = Random" and r: "Random = Greedy \<or> Random = Random"
    by simp_all
  have s: "servers sim_two_hosts \<noteq> []"
    by (simp add: sim_two_hosts_def)
  show ?thesis
    using baseline_history_replicates_iteration_0 [OF g, of sim_two_hosts draw_iteration]
      baseline_history_replicates_iteration_0 [OF r, of sim_two_hosts draw_iteration] s
    by simp
qed

subsection \<open>Hosted lists and the assignment of an iteration\<close>

lemma same_population_refl [simp]: "same_population sim sim"
  by (simp add: same_population_def)

lemma same_population_trans:
  "same_population c b \<Longrightarrow> same_population b a \<Longrightarrow> same_population c a"
  by (simp add: same_population_def)

lemma record_iteration_same_population:
  assumes "record_iteration sim h A = Inr (sim', h')"
  shows "same_population sim' sim"
  unfolding same_population_def record_iteration_frame [OF assms]
  by (simp add: place_srv_ids comp_def update_trust_scores_def Let_def)

lemma iteration_same_population:
  assumes "iteration alg draw i st = Inr st'"
  shows "same_population (fst st') (fst st)"
proof -
  from assms obtain A where A: "decide alg (draw i) (fst st) = Inr A"
    by (auto simp: iteration_def split: sum.splits)
  show ?thesis
  proof (cases "(alg = Greedy \<or> alg = Random) \<and> 0 < i")
    case True
    with assms A show ?thesis by (auto simp: iteration_def)
  next
    case False
    with assms A have "record_iteration (fst st) (snd st) A = Inr (fst st', snd st')"
      by (auto simp: iteration_def)
    then show ?thesis by (rule record_iteration_same_population)
  qed
qed

lemma run_same_population:
  "run alg draw n sim = Inr st \<Longrightarrow> same_population (fst st) sim"
proof (induction n arbitrary: st)
  case 0
  then show ?case by auto
next
  case (Suc n)
  then obtain st0 where st0: "run alg draw n sim = Inr st0" and it: "iteration alg draw n st0 = Inr st"
    by (auto split: sum.splits)
  from iteration_same_population [OF it] Suc.IH [OF st0] show ?case
    by (rule same_population_trans)
qed

lemma decide_greedy_same_population:
  assumes "same_population sim' sim"
  shows "decide Greedy draw' sim' = decide Greedy draw sim"
proof (rule decide_greedy_same_ids)
  from assms show "map srv_id (servers sim') = map srv_id (servers sim)"
    and "cost_matrix sim' = cost_matrix sim"
    by (simp_all add: same_population_def)
  from assms have m: "map dev_id (devices sim') = map dev_id (devices sim)"
    "map weight_latency (devices sim') = map weight_latency (devices sim)"
    "map weight_energy (devices sim') = map weight_energy (devices sim)"
    by (simp_all add: same_population_def)
  from m(1) have len: "length (devices sim') = length (devices sim)"
    by (rule map_eq_imp_length_eq)
  have "dev_id (devices sim' ! j) = dev_id (devices sim ! j) \<and>
        weight_latency (devices sim' ! j) = weight_latency (devices sim ! j) \<and>
        weight_energy (devices sim' ! j) = weight_energy (devices sim ! j)"
    if "j < length (devices sim)" for j
    using that len m by (metis nth_map)
  with len show "list_all2 (\<lambda>d' d. dev_id d' = dev_id d \<and> weight_latency d' = weight_latency d
       \<and> weight_energy d' = weight_energy d) (devices sim') (devices sim)"
    by (simp add: list_all2_conv_all_nth)
qed

lemma set_hosted_entries:
  assumes "distinct (map dev_id ds)" "distinct (map fst A)"
  shows "set (concat (map (hosted_entry ds sid) A)) =
         {j. j < length ds \<and> map_of A (dev_id (ds ! j)) = Some (Some sid)}"
proof (intro set_eqI iffI)
  fix j
  assume "j \<in> set (concat (map (hosted_entry ds sid) A))"
  then obtain e where e: "e \<in> set A" "j \<in> set (hosted_entry ds sid e)"
    by auto
  have v: "snd e = Some sid"
  proof (rule ccontr)
    assume "snd e \<noteq> Some sid"
    then have "hosted_entry ds sid e = []"
      by (simp add: hosted_entry_def)
    with e(2) show False by simp
  qed
  then have "hosted_entry ds sid e =
      (case first_index (\<lambda>d. dev_id d = fst e) ds of None \<Rightarrow> [] | Some j \<Rightarrow> [j])"
    by (simp add: hosted_entry_def)
  with e(2) have f: "first_index (\<lambda>d. dev_id d = fst e) ds = Some j"
    by (cases "first_index (\<lambda>d. dev_id d = fst e) ds") simp_all
  from first_index_Some [OF f] have j: "j < length ds" "dev_id (ds ! j) = fst e"
    by simp_all
  from e(1) v have "(fst e, Some sid) \<in> set A"
    by (metis prod.collapse)
  then have "map_of A (fst e) = Some (Some sid)"
    using assms(2) by simp
  with j show "j \<in> {j. j < length ds \<and> map_of A (dev_id (ds ! j)) = Some (Some sid)}"
    by simp
next
  fix j
  assume "j \<in> {j. j < length ds \<and> map_of A (dev_id (ds ! j)) = Some (Some sid)}"
  then have j: "j < length ds" and m: "map_of A (dev_id (ds ! j)) = Some (Some sid)"
    by simp_all
  from m have e: "(dev_id (ds ! j), Some sid) \<in> set A"
    by (rule map_of_SomeD)
  have "first_index (\<lambda>d. dev_id d = dev_id (ds ! j)) ds = Some j"
    using assms(1) j by (rule first_index_distinct)
  then have "j \<in> set (hosted_entry ds sid (dev_id (ds ! j), Some sid))"
    by (simp add: hosted_entry_def)
  with e show "j \<in> set (concat (map (hosted_entry ds sid) A))"
    by auto
qed

lemma record_iteration_hosted:
  assumes r: "record_iteration sim h A = Inr (sim', h')"
    and dd: "distinct (map dev_id (devices sim))" and ds: "distinct (map srv_id (servers sim))"
    and dA: "distinct (map fst A)" and s: "s \<in> set (servers sim')"
  shows "set (hosted s) =
         {j. j < length (devices sim') \<and> map_of A (dev_id (devices sim' ! j)) = Some (Some (srv_id s))}"
proof -
  let ?ds = "update_trust_scores A (devices sim)"
  let ?srvs = "map (\<lambda>s. s\<lparr>hosted := []\<rparr>) (servers sim)"
  have dev: "devices sim' = ?ds" and srv: "servers sim' = place ?ds ?srvs A"
    by (rule record_iteration_frame [OF r])+
  from s obtain k where k: "k < length (place ?ds ?srvs A)" and sk: "s = place ?ds ?srvs A ! k"
    by (auto simp: srv in_set_conv_nth)
  have kl: "k < length ?srvs"
    using k by (simp add: place_length)
  have d: "distinct (map srv_id ?srvs)"
    using ds by (simp add: comp_def)
  have "srv_id s = srv_id (?srvs ! k)"
    using place_srv_ids [of ?ds ?srvs A] kl k sk by (metis nth_map)
  moreover have "hosted s = hosted (?srvs ! k) @ concat (map (hosted_entry ?ds (srv_id (?srvs ! k))) A)"
    unfolding sk using d kl by (rule place_hosted)
  moreover have "hosted (?srvs ! k) = []"
    using kl by simp
  ultimately have "set (hosted s) = set (concat (map (hosted_entry ?ds (srv_id s)) A))"
    by simp
  also have "\<dots> = {j. j < length ?ds \<and> map_of A (dev_id (?ds ! j)) = Some (Some (srv_id s))}"
    using dd dA by (intro set_hosted_entries) simp_all
  finally show ?thesis by (simp only: dev)
qed

lemma state_after_run:
  "state_after alg draw n sim = Inr s \<Longrightarrow> \<exists>h. run alg draw n sim = Inr (s, h)"
  by (cases "run alg draw n sim") (auto simp: state_after_def)

lemma same_population_distinct:
  assumes "same_population sim' sim"
    and "distinct (map dev_id (devices sim))" "distinct (map srv_id (servers sim))"
  shows "distinct (map dev_id (devices sim'))" "distinct (map srv_id (servers sim'))"
  using assms by (simp_all add: same_population_def)

text \<open>
  C4, as the code behaves. With unique work-item ids and unique host ids: for the
  game-theoretic and the greedy strategy at every iteration, and for the random strategy
  at iteration 0, at the end of iteration \<open>i\<close> the hosted list of every host holds
  exactly the work items that the assignment computed in iteration \<open>i\<close> maps to that
  host. (Greedy does not materialise its assignment after iteration 0, but it computes
  the same assignment again.)
\<close>

theorem hosted_reflects_assignment:
  assumes dd: "distinct (map dev_id (devices sim0))"
    and ds: "distinct (map srv_id (servers sim0))"
    and alg: "alg \<noteq> Random \<or> i = 0"
    and before: "state_after alg draw i sim0 = Inr sim_i"
    and A: "decide alg (draw i) sim_i = Inr A"
    and after: "state_after alg draw (Suc i) sim0 = Inr sim'"
    and s: "s \<in> set (servers sim')"
  shows "set (hosted s) =
         {j. j < length (devices sim') \<and>
             map_of A (dev_id (devices sim' ! j)) = Some (Some (srv_id s))}"
proof -
  from state_after_run [OF before] obtain h_i where ri: "run alg draw i sim0 = Inr (sim_i, h_i)"
    by blast
  from state_after_run [OF after] obtain h' where "run alg draw (Suc i) sim0 = Inr (sim', h')"
    by blast
  with ri have it: "iteration alg draw i (sim_i, h_i) = Inr (sim', h')"
    by simp
  from run_same_population [OF ri] have pop: "same_population sim_i sim0"
    by simp
  note di = same_population_distinct [OF pop dd ds]
  show ?thesis
  proof (cases "(alg = Greedy \<or> alg = Random) \<and> 0 < i")
    case False
    with it A have "record_iteration sim_i h_i A = Inr (sim', h')"
      by (auto simp: iteration_def)
    then show ?thesis
      using di decide_distinct [OF A] s by (rule record_iteration_hosted)
  next
    case True
    with alg have g: "alg = Greedy" and i: "0 < i"
      by auto
    from i obtain n where n: "i = Suc n"
      by (cases i) simp_all
    from baseline_run_replicates [of Greedy sim0 draw] obtain A0 sim1 h1 where
      A0: "decide Greedy (draw 0) sim0 = Inr A0"
      and r0: "record_iteration sim0 history_init A0 = Inr (sim1, h1)"
      and rn: "\<forall>n. run Greedy draw (Suc n) sim0 = Inr (sim1, \<lambda>key. replicate (Suc n) (hd (h1 key)))"
      by auto
    from rn ri have e: "sim_i = sim1"
      by (simp add: g n)
    from it g i A have e': "sim' = sim_i"
      by (simp add: iteration_def)
    have "decide Greedy (draw i) sim_i = decide Greedy (draw 0) sim0"
      using pop by (rule decide_greedy_same_population)
    with A A0 g have "A = A0"
      by simp
    with r0 have "record_iteration sim0 history_init A = Inr (sim1, h1)"
      by simp
    then have "set (hosted s) =
         {j. j < length (devices sim1) \<and>
             map_of A (dev_id (devices sim1 ! j)) = Some (Some (srv_id s))}"
      using dd ds decide_distinct [OF A] s [unfolded e' e] by (rule record_iteration_hosted)
    then show ?thesis
      by (simp only: e' e)
  qed
qed

lemma decide_two_hosts_game: "decide Game_theory dr sim_two_hosts = Inr [(''a'', Some ''h1'')]"
  by (simp add: sim_two_hosts_def two_host_costs_def decide_defs entity_defs Let_def power2_eq_square)

lemma decide_two_hosts_greedy: "decide Greedy dr sim_two_hosts = Inr [(''a'', Some ''h1'')]"
  by (simp add: sim_two_hosts_def two_host_costs_def decide_defs entity_defs Let_def)

lemma decide_two_hosts_random: "decide Random (draw_iteration 0) sim_two_hosts = Inr [(''a'', Some ''h1'')]"
  by (simp add: sim_two_hosts_def draw_iteration_def decide_defs entity_defs Let_def)

lemma record_two_hosts:
  "map_sum id fst (record_iteration sim_two_hosts h [(''a'', Some ''h1'')]) = Inr sim_loaded"
  by (simp add: record_iteration_def update_trust_scores_def tally_init_def)
     (simp add: sim_loaded_def sim_two_hosts_def two_host_costs_def entity_defs
        assign_devices_to_servers_def get_dynamic_cost_def)

lemma state_after_two_hosts_game: "state_after Game_theory dr (Suc 0) sim_two_hosts = Inr sim_loaded"
  by (simp add: state_after_def iteration_def decide_two_hosts_game record_two_hosts)

lemma state_after_two_hosts_random:
  "state_after Random draw_iteration (Suc 0) sim_two_hosts = Inr sim_loaded"
  by (simp add: state_after_def iteration_def decide_two_hosts_random record_two_hosts)

lemma decide_loaded_random:
  "decide Random (draw_iteration (Suc 0)) sim_loaded = Inr [(''a'', Some ''h2'')]"
  by (simp add: sim_loaded_def sim_two_hosts_def draw_iteration_def decide_defs entity_defs Let_def)

lemma state_after_replicated:
  assumes "state_after alg draw n sim = Inr s" "alg = Greedy \<or> alg = Random" "0 < n"
    "decide alg (draw n) s = Inr A"
  shows "state_after alg draw (Suc n) sim = Inr s"
proof -
  from state_after_run [OF assms(1)] obtain h where "run alg draw n sim = Inr (s, h)"
    by blast
  then show ?thesis
    using assms(2-) by (simp add: state_after_def iteration_def)
qed

theorem hosted_reflects_assignment_witness:
  "(distinct (map dev_id (devices sim_two_hosts)) \<and> distinct (map srv_id (servers sim_two_hosts))
     \<and> Game_theory \<noteq> Random
     \<and> state_after Game_theory draw_iteration 0 sim_two_hosts = Inr sim_two_hosts
     \<and> decide Game_theory (draw_iteration 0) sim_two_hosts = Inr [(''a'', Some ''h1'')]
     \<and> state_after Game_theory draw_iteration (Suc 0) sim_two_hosts = Inr sim_loaded
     \<and> hd (servers sim_loaded) \<in> set (servers sim_loaded)) \<and>
   (distinct (map dev_id (devices sim_two_hosts)) \<and> distinct (map srv_id (servers sim_two_hosts))
     \<and> Greedy \<noteq> Random
     \<and> state_after Greedy draw_iteration (Suc 0) sim_two_hosts = Inr sim_loaded
     \<and> decide Greedy (draw_iteration (Suc 0)) sim_loaded = Inr [(''a'', Some ''h1'')]
     \<and> state_after Greedy draw_iteration (Suc (Suc 0)) sim_two_hosts = Inr sim_loaded
     \<and> hd (servers sim_loaded) \<in> set (servers sim_loaded)) \<and>
   set (hosted (hd (servers sim_loaded))) =
     {j. j < length (devices sim_loaded) \<and>
         map_of [(''a'', Some ''h1'')] (dev_id (devices sim_loaded ! j))
           = Some (Some (srv_id (hd (servers sim_loaded))))}"
proof -
  have h: "distinct (map dev_id (devices sim_two_hosts))"
    "distinct (map srv_id (servers sim_two_hosts))"
    "Game_theory \<noteq> Random \<or> (0::nat) = 0"
    "state_after Game_theory draw_iteration 0 sim_two_hosts = Inr sim_two_hosts"
    "decide Game_theory (draw_iteration 0) sim_two_hosts = Inr [(''a'', Some ''h1'')]"
    "state_after Game_theory draw_iteration (Suc 0) sim_two_hosts = Inr sim_loaded"
    "hd (servers sim_loaded) \<in> set (servers sim_loaded)"
    by (simp_all add: decide_two_hosts_game state_after_two_hosts_game)
       (simp_all add: sim_two_hosts_def sim_loaded_def Mote_def state_after_def)
  have g1: "state_after Greedy draw_iteration (Suc 0) sim_two_hosts = Inr sim_loaded"
    by (simp add: state_after_def iteration_def decide_two_hosts_greedy record_two_hosts)
  have g2: "decide Greedy (draw_iteration (Suc 0)) sim_loaded = Inr [(''a'', Some ''h1'')]"
    by (simp add: sim_loaded_def sim_two_hosts_def two_host_costs_def decide_defs entity_defs Let_def)
  have g3: "state_after Greedy draw_iteration (Suc (Suc 0)) sim_two_hosts = Inr sim_loaded"
    using g1 _ _ g2 by (rule state_after_replicated) simp_all
  have g: "Greedy \<noteq> Random \<or> Suc 0 = 0"
    by simp
  show ?thesis
    using h g g1 g2 g3 hosted_reflects_assignment [OF h]
      hosted_reflects_assignment [OF h(1,2) g g1 g2 g3 h(7)]
    by blast
qed

text \<open>
  C4 as stated fails for the random strategy after iteration 0. In \<open>sim_two_hosts\<close>
  with the draws of \<open>draw_iteration\<close>, iteration 0 places the work item on the first
  host; the assignment computed in iteration 1 maps it to the second host, and at the end
  of iteration 1 the first host still holds it and the second host holds nothing.
\<close>

theorem random_hosted_stale:
  "state_after Random draw_iteration (Suc 0) sim_two_hosts = Inr sim_loaded \<and>
   decide Random (draw_iteration (Suc 0)) sim_loaded = Inr [(''a'', Some ''h2'')] \<and>
   state_after Random draw_iteration (Suc (Suc 0)) sim_two_hosts = Inr sim_loaded \<and>
   map srv_id (servers sim_loaded) = [''h1'', ''h2''] \<and>
   map hosted (servers sim_loaded) = [[0], []]"
proof -
  have "state_after Random draw_iteration (Suc (Suc 0)) sim_two_hosts = Inr sim_loaded"
    using state_after_two_hosts_random _ _ decide_loaded_random
    by (rule state_after_replicated) simp_all
  moreover have "map srv_id (servers sim_loaded) = [''h1'', ''h2'']"
    "map hosted (servers sim_loaded) = [[0], []]"
    by (simp_all add: sim_loaded_def Mote_def)
  ultimately show ?thesis
    using state_after_two_hosts_random decide_loaded_random by blast
qed

subsection \<open>Aggregation over trials\<close>

lemma those_all_Some:
  "None \<notin> set xs \<Longrightarrow> those xs = Some (map the xs)"
proof (induction xs)
  case Nil
  show ?case by simp
next
  case (Cons a xs)
  then obtain y where "a = Some y"
    by (cases a) auto
  with Cons show ?case by simp
qed

lemma np_mean_arithmetic:
  "xs \<noteq> [] \<Longrightarrow> np_mean xs = Some (arithmetic_mean xs)"
  by (simp add: np_mean_def arithmetic_mean_def)

lemma np_std_population:
  "xs \<noteq> [] \<Longrightarrow> np_std xs = Some (population_std xs)"
  by (simp add: np_std_def np_mean_def population_std_def arithmetic_mean_def)

lemma reduce_axis0_nth:
  assumes "t < length (hd rows)" "None \<notin> set (column rows t)"
  shows "reduce_axis0 f rows ! t = f (map the (column rows t))"
  using assms by (simp add: reduce_axis0_def those_all_Some)

text \<open>
  C9. For trials whose histories of a metric all have length \<open>L\<close> and hold numbers
  (no \<^verbatim>\<open>nan\<close>), the aggregation returns two sequences of length \<open>L\<close>; at every
  iteration index \<open>t\<close> the first is the arithmetic mean over the trials of the metric
  at \<open>t\<close> and the second its population standard deviation.
\<close>

theorem aggregate_mean_std:
  assumes ne: "histories \<noteq> []"
    and len: "\<forall>run\<in>set histories. length (run key) = L"
    and fin: "\<forall>run\<in>set histories. None \<notin> set (run key)"
    and t: "t < L"
  shows "\<exists>means stds. aggregate histories key = Inr (means, stds)
           \<and> length means = L \<and> length stds = L
           \<and> means ! t = Some (arithmetic_mean (map (\<lambda>run. the (run key ! t)) histories))
           \<and> stds ! t = Some (population_std (map (\<lambda>run. the (run key ! t)) histories))"
proof -
  let ?rows = "map (\<lambda>run. run key) histories"
  have hd: "length (hd ?rows) = L"
    using ne len by (cases histories) simp_all
  have arr: "np_array ?rows = Inr ?rows"
    using len hd by (simp add: np_array_def)
  have agg: "aggregate histories key = Inr (reduce_axis0 np_mean ?rows, reduce_axis0 np_std ?rows)"
    using ne by (simp add: aggregate_def arr)
  have col: "column ?rows t = map (\<lambda>run. run key ! t) histories"
    by (simp add: column_def comp_def)
  have "run key ! t \<noteq> None" if "run \<in> set histories" for run
    using that len fin t by (metis nth_mem)
  then have nn: "None \<notin> set (column ?rows t)"
    unfolding col by (metis (mono_tags, lifting) imageE list.set_map)
  have vals: "map the (column ?rows t) = map (\<lambda>run. the (run key ! t)) histories"
    by (simp add: col comp_def)
  have nonempty: "map (\<lambda>run. the (run key ! t)) histories \<noteq> []"
    using ne by simp
  have tl: "t < length (hd ?rows)"
    using t hd by simp
  have "reduce_axis0 np_mean ?rows ! t = Some (arithmetic_mean (map (\<lambda>run. the (run key ! t)) histories))"
    by (simp only: reduce_axis0_nth [OF tl nn] vals np_mean_arithmetic [OF nonempty])
  moreover have "reduce_axis0 np_std ?rows ! t = Some (population_std (map (\<lambda>run. the (run key ! t)) histories))"
    by (simp only: reduce_axis0_nth [OF tl nn] vals np_std_population [OF nonempty])
  moreover have "length (reduce_axis0 np_mean ?rows) = L" "length (reduce_axis0 np_std ?rows) = L"
    using hd by (simp_all add: reduce_axis0_def)
  ultimately show ?thesis
    using agg by blast
qed

theorem aggregate_mean_std_witness:
  "([trial_a, trial_b, trial_c] \<noteq> []
     \<and> list_all (\<lambda>run. length (run Completion_ratio) = 2) [trial_a, trial_b, trial_c]
     \<and> list_all (\<lambda>run. None \<notin> set (run Completion_ratio)) [trial_a, trial_b, trial_c]
     \<and> (1::nat) < 2) \<and>
   (\<exists>means stds. aggregate [trial_a, trial_b, trial_c] Completion_ratio = Inr (means, stds)
      \<and> length means = 2 \<and> length stds = 2
      \<and> means ! 1 = Some (arithmetic_mean
            (map (\<lambda>run. the (run Completion_ratio ! 1)) [trial_a, trial_b, trial_c]))
      \<and> stds ! 1 = Some (population_std
            (map (\<lambda>run. the (run Completion_ratio ! 1)) [trial_a, trial_b, trial_c])))"
proof -
  have h: "[trial_a, trial_b, trial_c] \<noteq> []"
    "\<forall>run\<in>set [trial_a, trial_b, trial_c]. length (run Completion_ratio) = 2"
    "\<forall>run\<in>set [trial_a, trial_b, trial_c]. None \<notin> set (run Completion_ratio)"
    "(1::nat) < 2"
    by (simp_all add: trial_a_def trial_b_def trial_c_def)
  show ?thesis
    using h aggregate_mean_std [OF h] by (simp only: list_all_iff) blast
qed

text \<open>The fixture by hand: means 2 and 5, variances 2/3 and 26/3.\<close>

lemma fixture_values:
  "aggregate [trial_a, trial_b, trial_c] key =
     Inr ([Some 2, Some 5], [Some (sqrt (2 / 3)), Some (sqrt (26 / 3))])"
  by (simp add: aggregate_def np_array_def reduce_axis0_def column_def np_mean_def np_std_def
        trial_a_def trial_b_def trial_c_def upt_rec [of 0] upt_rec [of 1] power2_eq_square)

subsection \<open>Well-formed states\<close>

text \<open>
  The rejection counter is never negative: the constructors set it to 0 and the trust
  update keeps it non-negative.
\<close>


lemma constructors_counter:
  "consecutive_rejections (SensorTask i v m dl) = 0"
  "consecutive_rejections (IoTEdgeModule i v m dl) = 0"
  by (simp_all add: SensorTask_def IoTEdgeModule_def)

lemma update_keeps_counter_nonneg:
  "0 \<le> consecutive_rejections d \<Longrightarrow> 0 \<le> consecutive_rejections (update_trust_score d b)"
  by (simp add: update_trust_score_def Let_def)

text \<open>
  The game-theoretic strategy raises only through a host of capacity 0, which the
  constructors exclude.
\<close>

lemma server_calculate_utility_total:
  "capacity_cpu s \<noteq> 0 \<Longrightarrow> \<exists>u. server_calculate_utility s ts = Inr u"
  by (simp add: server_calculate_utility_def Let_def)

lemma accept_scan_total:
  assumes "capacity_cpu s \<noteq> 0"
  shows "\<exists>acc'. accept_scan s ds acc b js = Inr acc' \<and> set acc' \<subseteq> set acc \<union> set js"
proof (induction js arbitrary: acc b)
  case Nil
  show ?case by simp
next
  case (Cons j js)
  from server_calculate_utility_total [OF assms] obtain u where
    u: "server_calculate_utility s (map ((!) ds) (acc @ [j])) = Inr u"
    by blast
  show ?case
  proof (cases "u > b")
    case True
    from Cons.IH [of "acc @ [j]" u] obtain acc' where
      "accept_scan s ds (acc @ [j]) u js = Inr acc'" "set acc' \<subseteq> set (acc @ [j]) \<union> set js"
      by blast
    with True u show ?thesis by (auto simp: Let_def)
  next
    case False
    from Cons.IH [of acc b] obtain acc' where
      "accept_scan s ds acc b js = Inr acc'" "set acc' \<subseteq> set acc \<union> set js"
      by blast
    with False u show ?thesis by (auto simp: Let_def)
  qed
qed

lemma acceptance_total:
  assumes "capacity_cpu s \<noteq> 0"
  shows "\<exists>acc. acceptance ds s req = Inr acc \<and> set acc \<subseteq> set req"
proof -
  have "server_calculate_utility s [] = Inr 0"
    by (simp add: server_calculate_utility_def)
  moreover from accept_scan_total [OF assms, of ds "[]" 0 "sort_key (\<lambda>j. - trust_score (ds ! j)) req"]
  obtain acc where "accept_scan s ds [] 0 (sort_key (\<lambda>j. - trust_score (ds ! j)) req) = Inr acc"
    "set acc \<subseteq> set req"
    by auto
  ultimately show ?thesis
    by (simp add: acceptance_def)
qed

lemma propose_fold_entries:
  "set (foldl (propose_step sim) props js sid) \<subseteq> set (props sid) \<union> set js"
proof (induction js rule: rev_induct)
  case Nil
  show ?case by simp
next
  case (snoc j js)
  then show ?case
    by (auto simp: propose_step_def split: option.splits if_splits)
qed

lemma propose_entries: "set (propose sim sid) \<subseteq> {..<length (devices sim)}"
  using propose_fold_entries [of sim "\<lambda>_. []" "[0..<length (devices sim)]" sid]
  by (auto simp: propose_def)

lemma enter_accepted_known_ids:
  assumes "known_ids sim fa" "set acc \<subseteq> {..<length (devices sim)}" "s \<in> set (servers sim)"
  shows "known_ids sim (enter_accepted (devices sim) s fa acc)"
  unfolding known_ids_def enter_accepted_def
proof
  fix e
  assume "e \<in> set (foldl (\<lambda>fa j. AList.update (dev_id (devices sim ! j)) (Some (srv_id s)) fa) fa acc)"
  then have "e \<in> set fa \<or> (\<exists>j\<in>set acc. e = (dev_id (devices sim ! j), Some (srv_id s)))"
    by (rule foldl_update_entries)
  then show "fst e \<in> dev_id ` set (devices sim) \<and>
       (case snd e of None \<Rightarrow> True | Some sid \<Rightarrow> sid \<in> srv_id ` set (servers sim))"
  proof
    assume "e \<in> set fa"
    with assms(1) show ?thesis by (simp add: known_ids_def)
  next
    assume "\<exists>j\<in>set acc. e = (dev_id (devices sim ! j), Some (srv_id s))"
    then obtain j where "j \<in> set acc" "e = (dev_id (devices sim ! j), Some (srv_id s))"
      by blast
    with assms(2,3) show ?thesis by auto
  qed
qed

lemma negotiate_total:
  assumes "\<forall>s\<in>set srvs. capacity_cpu s \<noteq> 0 \<and> s \<in> set (servers sim)"
    and "\<forall>sid. set (props sid) \<subseteq> {..<length (devices sim)}"
    and "known_ids sim fa"
  shows "\<exists>A. negotiate sim props fa srvs = Inr A \<and> known_ids sim A"
  using assms
proof (induction srvs arbitrary: fa)
  case Nil
  then show ?case by simp
next
  case (Cons s srvs)
  show ?case
  proof (cases "props (srv_id s) = []")
    case True
    with Cons show ?thesis by simp
  next
    case False
    from Cons.prems(1) have c: "capacity_cpu s \<noteq> 0" and m: "s \<in> set (servers sim)"
      by simp_all
    from acceptance_total [OF c, of "devices sim" "props (srv_id s)"] obtain acc where
      acc: "acceptance (devices sim) s (props (srv_id s)) = Inr acc" "set acc \<subseteq> set (props (srv_id s))"
      by blast
    with Cons.prems(2) have "set acc \<subseteq> {..<length (devices sim)}"
      by blast
    with Cons.prems(3) have "known_ids sim (enter_accepted (devices sim) s fa acc)"
      using m by (rule enter_accepted_known_ids)
    with Cons.IH [of "enter_accepted (devices sim) s fa acc"] Cons.prems(1,2) obtain A where
      "negotiate sim props (enter_accepted (devices sim) s fa acc) srvs = Inr A" "known_ids sim A"
      by auto
    with False acc(1) show ?thesis by (simp add: Let_def)
  qed
qed

lemma decide_game_total:
  assumes "\<forall>s\<in>set (servers sim). capacity_cpu s \<noteq> 0"
  shows "\<exists>A. decide Game_theory dr sim = Inr A \<and> known_ids sim A"
proof -
  have "\<exists>A. negotiate sim (propose sim) [] (servers sim) = Inr A \<and> known_ids sim A"
    using assms by (intro negotiate_total) (simp_all add: propose_entries known_ids_def)
  then show ?thesis by (simp add: decide_def)
qed

lemma place_capacities: "map capacity_cpu (place ds srvs A) = map capacity_cpu srvs"
proof (induction A arbitrary: srvs)
  case Nil
  show ?case by simp
next
  case (Cons e A)
  obtain dev v where e: "e = (dev, v)" by (cases e)
  have u: "map capacity_cpu (srvs[k := (srvs ! k)\<lparr>hosted := hs\<rparr>]) = map capacity_cpu srvs" for k hs
    by (cases "k < length srvs")
       (simp_all add: map_update list_update_same_conv list_update_beyond not_less)
  show ?case
    by (simp add: e Cons.IH u split: option.splits)
qed

lemma game_theory_run_total:
  assumes "\<forall>s\<in>set (servers sim). capacity_cpu s \<noteq> 0"
  shows "\<exists>st. run Game_theory draw n sim = Inr st \<and>
           map capacity_cpu (servers (fst st)) = map capacity_cpu (servers sim)"
proof (induction n)
  case 0
  show ?case by simp
next
  case (Suc n)
  then obtain st where st: "run Game_theory draw n sim = Inr st"
    and cst: "map capacity_cpu (servers (fst st)) = map capacity_cpu (servers sim)"
    by blast
  obtain sim_n h_n where p: "st = (sim_n, h_n)"
    by (cases st)
  from st cst p have r: "run Game_theory draw n sim = Inr (sim_n, h_n)"
    and c: "map capacity_cpu (servers sim_n) = map capacity_cpu (servers sim)"
    by simp_all
  have "\<forall>s\<in>set (servers sim_n). capacity_cpu s \<noteq> 0"
  proof
    fix s
    assume "s \<in> set (servers sim_n)"
    then have "capacity_cpu s \<in> set (map capacity_cpu (servers sim_n))"
      by simp
    then have "capacity_cpu s \<in> set (map capacity_cpu (servers sim))"
      by (simp only: c)
    then obtain s' where "s' \<in> set (servers sim)" "capacity_cpu s' = capacity_cpu s"
      by auto
    with assms show "capacity_cpu s \<noteq> 0"
      by metis
  qed
  from decide_game_total [OF this, of "draw n"] obtain A where
    A: "decide Game_theory (draw n) sim_n = Inr A" "known_ids sim_n A"
    by blast
  from record_iteration_total [OF A(2), of h_n] obtain sim' h' where
    ri: "record_iteration sim_n h_n A = Inr (sim', h')"
    by blast
  have "map capacity_cpu (servers sim') = map capacity_cpu (servers sim_n)"
    by (simp add: record_iteration_frame(2) [OF ri] place_capacities comp_def)
  moreover have "iteration Game_theory draw n (sim_n, h_n) = Inr (sim', h')"
    by (simp add: iteration_def A(1) ri)
  then have "run Game_theory draw (Suc n) sim = Inr (sim', h')"
    by (simp add: r)
  ultimately have "run Game_theory draw (Suc n) sim = Inr (sim', h') \<and>
      map capacity_cpu (servers (fst (sim', h'))) = map capacity_cpu (servers sim)"
    using c by simp
  then show ?case
    by blast
qed

end
